theory Spec2Isabelle
  imports Main
begin

section \<open>Common types\<close>

text \<open>
  A block identifier (\<open>bid_type\<close>) is an opaque token naming the place of a block on
  background storage. The default-constructed identifier is \<open>BID 0\<close>.
\<close>

datatype bid = BID nat

text \<open>
  Errors are values. \<open>AssertionFailed\<close> carries the text of the failed \<open>assert\<close>;
  \<open>OutOfBounds\<close> is an access outside an array (undefined behaviour in the source);
  \<open>Blocked\<close> is a call that never returns because it waits for an event that nothing
  will ever produce.
\<close>

datatype error = AssertionFailed string | OutOfBounds | Blocked

section \<open>Buffered output stream (foxxll/mng/buf\_ostream.hpp)\<close>

text \<open>
  The stream owns the block \<open>current_blk\<close> points to (its \<open>elem\<close> array is the list
  \<open>current_blk\<close>), the offset \<open>current_elem\<close> and the output iterator \<open>current_bid\<close>
  (a position in the sequence of output identifiers). The write-behind pool
  \<open>buffered_writer\<close> is an external collaborator: its state is the field \<open>writer\<close> of an
  arbitrary type, and its operation \<open>write\<close> is a parameter of the stream operations.
  \<open>flushed\<close> records, in order, every block handed to \<open>writer.write\<close> together with the
  iterator position it was written to.
\<close>

record ('a, 'p) buf_ostream =
  writer :: 'p
  current_bid :: nat
  current_elem :: nat
  current_blk :: "'a list"
  flushed :: "(nat \<times> 'a list) list"

text \<open>
  Modelled from the spec: \<open>buffered_writer::write\<close> and \<open>get_free_block\<close>
  (foxxll/mng/buf\_writer.hpp). \<open>write blk bid p\<close> takes the filled block
  and its target, and returns a free block of the pool (whatever it holds) and the new pool.
\<close>

type_synonym ('a, 'p) pool_write = "'a list \<Rightarrow> nat \<Rightarrow> 'p \<Rightarrow> 'a list \<times> 'p"

text \<open>Every block of the pool has \<open>block_type::size\<close> elements.\<close>

definition pool_blocks :: "nat \<Rightarrow> ('a, 'p) pool_write \<Rightarrow> bool" where
  "pool_blocks bsize wr = (\<forall>blk b p. length (fst (wr blk b p)) = bsize)"

text \<open>
  The shared tail of \<open>operator <<\<close>, \<open>operator ++\<close> and \<open>flush\<close>:
  \<open>current_elem = 0; current_blk = writer.write(current_blk, *(current_bid++));\<close>
\<close>

definition write_out :: "('a, 'p) pool_write \<Rightarrow> ('a, 'p) buf_ostream \<Rightarrow> ('a, 'p) buf_ostream" where
  "write_out wr s =
     (let (blk', w') = wr (current_blk s) (current_bid s) (writer s)
      in s\<lparr>writer := w',
           current_bid := current_bid s + 1,
           current_elem := 0,
           current_blk := blk',
           flushed := flushed s @ [(current_bid s, current_blk s)]\<rparr>)"

text \<open>The constructor: offset 0, and the first free block of the pool.\<close>

definition new_buf_ostream :: "('p \<Rightarrow> 'a list \<times> 'p) \<Rightarrow> 'p \<Rightarrow> nat \<Rightarrow> ('a, 'p) buf_ostream" where
  "new_buf_ostream get_free_block pool first_bid =
     (let (blk, w) = get_free_block pool
      in \<lparr>writer = w, current_bid = first_bid, current_elem = 0, current_blk = blk,
          flushed = []\<rparr>)"

text \<open>
  \<open>operator <<\<close>. The store \<open>current_blk->elem[current_elem++] = record\<close> outside the
  block is undefined behaviour in the source and \<open>OutOfBounds\<close> here.
\<close>

definition put :: "nat \<Rightarrow> ('a, 'p) pool_write \<Rightarrow> 'a \<Rightarrow> ('a, 'p) buf_ostream
    \<Rightarrow> error + ('a, 'p) buf_ostream" where
  "put bsize wr record s =
     (if length (current_blk s) \<le> current_elem s then Inl OutOfBounds
      else
        let s1 = s\<lparr>current_blk := (current_blk s)[current_elem s := record],
                   current_elem := current_elem s + 1\<rparr>
        in if current_elem s1 \<ge> bsize then Inr (write_out wr s1) else Inr s1)"

text \<open>
  \<open>current()\<close> and \<open>operator *\<close> return a reference to \<open>current_blk->elem[current_elem]\<close>.
  \<open>current\<close> reads through it, \<open>assign_current\<close> stores through it.
\<close>

definition current :: "('a, 'p) buf_ostream \<Rightarrow> error + 'a" where
  "current s =
     (if length (current_blk s) \<le> current_elem s then Inl OutOfBounds
      else Inr (current_blk s ! current_elem s))"

definition assign_current :: "'a \<Rightarrow> ('a, 'p) buf_ostream \<Rightarrow> error + ('a, 'p) buf_ostream" where
  "assign_current record s =
     (if length (current_blk s) \<le> current_elem s then Inl OutOfBounds
      else Inr (s\<lparr>current_blk := (current_blk s)[current_elem s := record]\<rparr>))"

text \<open>\<open>operator ++\<close>.\<close>

definition incr :: "nat \<Rightarrow> ('a, 'p) pool_write \<Rightarrow> ('a, 'p) buf_ostream \<Rightarrow> ('a, 'p) buf_ostream" where
  "incr bsize wr s =
     (let s1 = s\<lparr>current_elem := current_elem s + 1\<rparr>
      in if current_elem s1 \<ge> bsize then write_out wr s1 else s1)"

text \<open>\<open>fill\<close>: \<open>while (current_elem != 0) operator << (record);\<close>\<close>

function fill :: "nat \<Rightarrow> ('a, 'p) pool_write \<Rightarrow> 'a \<Rightarrow> ('a, 'p) buf_ostream
    \<Rightarrow> error + ('a, 'p) buf_ostream" where
  "fill bsize wr record s =
     (if current_elem s \<noteq> 0 then
        (case put bsize wr record s of
           Inl e \<Rightarrow> Inl e
         | Inr s' \<Rightarrow> fill bsize wr record s')
      else Inr s)"
  by pat_completeness auto
termination
proof (relation "measure (\<lambda>(bsize, wr, record, s).
          if current_elem s = 0 then 0 else Suc (bsize - current_elem s))")
  show "wf (measure (\<lambda>(bsize, wr, record, s).
          if current_elem s = 0 then 0 else Suc (bsize - current_elem (s :: ('a, 'p) buf_ostream))))"
    by simp
next
  fix bsize :: nat and wr :: "('a, 'p) pool_write" and r :: 'a
    and s s' :: "('a, 'p) buf_ostream"
  assume ne: "current_elem s \<noteq> 0" and p: "put bsize wr r s = Inr s'"
  have "current_elem s' = 0 \<or> (current_elem s' = current_elem s + 1 \<and> current_elem s' < bsize)"
    using p by (auto simp: put_def write_out_def Let_def split: if_splits prod.splits)
  then show "((bsize, wr, r, s'), (bsize, wr, r, s))
      \<in> measure (\<lambda>(bsize, wr, record, s).
          if current_elem s = 0 then 0 else Suc (bsize - current_elem s))"
    using ne by auto
qed

text \<open>\<open>flush\<close> writes the current block out whatever its fill level.\<close>

definition flush :: "('a, 'p) pool_write \<Rightarrow> ('a, 'p) buf_ostream \<Rightarrow> ('a, 'p) buf_ostream" where
  "flush wr s = write_out wr s"

text \<open>The destructor: \<open>assert(current_elem == 0)\<close>.\<close>

definition delete_buf_ostream :: "('a, 'p) buf_ostream \<Rightarrow> error + unit" where
  "delete_buf_ostream s =
     (if current_elem s = 0 then Inr () else Inl (AssertionFailed ''current_elem == 0''))"

text \<open>A caller appending a sequence of records, one \<open>operator <<\<close> each.\<close>

fun put_all :: "nat \<Rightarrow> ('a, 'p) pool_write \<Rightarrow> 'a list \<Rightarrow> ('a, 'p) buf_ostream
    \<Rightarrow> error + ('a, 'p) buf_ostream" where
  "put_all bsize wr [] s = Inr s"
| "put_all bsize wr (x # xs) s =
     (case put bsize wr x s of Inl e \<Rightarrow> Inl e | Inr s' \<Rightarrow> put_all bsize wr xs s')"

section \<open>Asynchronous block prefetcher (foxxll/mng/block\_prefetcher.hpp)\<close>

subsection \<open>The completion adapter and the requests\<close>

text \<open>
  \<open>set_switch_handler\<close> holds a reference to one \<open>onoff_switch\<close> (here the index of
  the switch in the array \<open>completed\<close>) and a \<open>completion_handler\<close>, which may be empty
  (here: whether it is present).
\<close>

record set_switch_handler =
  switch_ix :: nat
  on_complete :: bool

text \<open>
  Modelled from the spec: the request of the Request/File abstraction
  (foxxll/io/request.hpp). A request reads one block into one buffer of the pool and calls its
  completion handler exactly once, when it retires.
\<close>

record request =
  req_buffer :: nat
  req_bid :: bid
  req_handler :: set_switch_handler
  req_done :: bool

text \<open>
  What the prefetcher does to its collaborators, in the order it happens:
  a read is issued (creating the request with that number), the caller waits for a request,
  the I/O layer retires a request, the user's completion handler runs for a position,
  a switch is turned on, the caller starts to wait for a switch, the caller is woken.
\<close>

datatype event =
    IssueRead nat
  | ReqWait nat
  | ReadDone nat
  | UserCallback nat
  | SwitchOn nat
  | WaitSignal nat
  | Woken nat

text \<open>
  The members of \<open>block_prefetcher\<close>. \<open>consume_seq\<close> is the range
  \<open>[consume_seq_begin, consume_seq_end)\<close>; \<open>read_buffers ! i\<close> is what buffer \<open>i\<close>
  holds (\<open>Some b\<close>: the data of block \<open>b\<close>); \<open>read_reqs ! i\<close> is a \<open>request_ptr\<close>
  (\<open>None\<close> is the null pointer, \<open>Some r\<close> points to request \<open>r\<close>);
  \<open>completed ! p\<close> is whether switch \<open>p\<close> is on. \<open>requests\<close> (all requests issued so
  far, by number) and \<open>io_log\<close> belong to the I/O layer.
\<close>

record block_prefetcher =
  consume_seq :: "bid list"
  seq_length :: nat
  prefetch_seq :: "nat list"
  nextread :: nat
  nextconsume :: nat
  nreadblocks :: nat
  read_buffers :: "bid option list"
  read_reqs :: "nat option list"
  read_bids :: "bid list"
  completed :: "bool list"
  pref_buffer :: "nat list"
  do_after_fetch :: bool
  requests :: "request list"
  io_log :: "event list"

text \<open>\<open>std::fill(pref_buffer, pref_buffer + seq_length, -1)\<close>: the value \<open>-1\<close> as a 64-bit \<open>size_t\<close>.\<close>

definition unassigned :: nat where
  "unassigned = 2 ^ 64 - 1"

text \<open>
  \<open>set_switch_handler::operator ()\<close>: the user's handler first, if there is one, then
  the switch.
\<close>

definition handler_call :: "set_switch_handler \<Rightarrow> block_prefetcher \<Rightarrow> block_prefetcher" where
  "handler_call h s =
     (let s1 = (if on_complete h then s\<lparr>io_log := io_log s @ [UserCallback (switch_ix h)]\<rparr> else s)
      in s1\<lparr>completed := (completed s1)[switch_ix h := True],
            io_log := io_log s1 @ [SwitchOn (switch_ix h)]\<rparr>)"

text \<open>
  Modelled from the spec: \<open>block_type::read\<close> (issue an asynchronous read of block \<open>b\<close>
  into buffer \<open>ibuffer\<close> with completion handler \<open>h\<close>, returning the request).
\<close>

definition block_read :: "nat \<Rightarrow> bid \<Rightarrow> set_switch_handler \<Rightarrow> block_prefetcher
    \<Rightarrow> nat \<times> block_prefetcher" where
  "block_read ibuffer b h s =
     (let rid = length (requests s)
      in (rid, s\<lparr>requests := requests s @
                    [\<lparr>req_buffer = ibuffer, req_bid = b, req_handler = h, req_done = False\<rparr>],
                  io_log := io_log s @ [IssueRead rid]\<rparr>))"

text \<open>
  Modelled from the spec: the I/O layer retires request \<open>rid\<close>: the data is in the buffer,
  and the completion handler is called. A request retires once; anything else is no step.
\<close>

definition io_complete :: "nat \<Rightarrow> block_prefetcher \<Rightarrow> block_prefetcher" where
  "io_complete rid s =
     (if rid < length (requests s) \<and> \<not> req_done (requests s ! rid) then
        let r = requests s ! rid
        in handler_call (req_handler r)
             (s\<lparr>requests := (requests s)[rid := r\<lparr>req_done := True\<rparr>],
                read_buffers := (read_buffers s)[req_buffer r := Some (req_bid r)],
                io_log := io_log s @ [ReadDone rid]\<rparr>)
      else s)"

text \<open>
  Modelled from the spec: \<open>request::wait\<close> returns when the request has retired; if it
  has not yet, the I/O layer retires it while the caller waits.
\<close>

definition request_wait :: "nat \<Rightarrow> block_prefetcher \<Rightarrow> block_prefetcher" where
  "request_wait rid s = io_complete rid (s\<lparr>io_log := io_log s @ [ReqWait rid]\<rparr>)"

text \<open>
  Modelled from the spec: \<open>onoff_switch::wait_for_on\<close> blocks until the switch is on.
  If it is off, only the completion of a request whose handler is bound to this switch can
  turn it on: the first such request in flight retires while the caller waits. If there is
  none, the caller waits forever.
\<close>

definition wait_for_on :: "nat \<Rightarrow> block_prefetcher \<Rightarrow> error + block_prefetcher" where
  "wait_for_on p s =
     (let s1 = s\<lparr>io_log := io_log s @ [WaitSignal p]\<rparr>
      in if completed s1 ! p then Inr (s1\<lparr>io_log := io_log s1 @ [Woken p]\<rparr>)
         else
           (case List.find (\<lambda>rid. \<not> req_done (requests s1 ! rid)
                                 \<and> switch_ix (req_handler (requests s1 ! rid)) = p)
                           [0..<length (requests s1)] of
              None \<Rightarrow> Inl Blocked
            | Some rid \<Rightarrow>
                let s2 = io_complete rid s1
                in Inr (s2\<lparr>io_log := io_log s2 @ [Woken p]\<rparr>)))"

subsection \<open>The prefetcher\<close>

text \<open>
  \<open>wait\<close>. The arrays \<open>completed\<close> and \<open>pref_buffer\<close> have \<open>seq_length\<close> elements; an
  index outside is \<open>OutOfBounds\<close>. The result is the index of the returned buffer in
  \<open>read_buffers\<close>.
\<close>

definition wait :: "nat \<Rightarrow> block_prefetcher \<Rightarrow> error + nat \<times> block_prefetcher" where
  "wait iblock s =
     (if seq_length s \<le> iblock then Inl OutOfBounds
      else
        (case wait_for_on iblock s of
           Inl e \<Rightarrow> Inl e
         | Inr s1 \<Rightarrow>
             let ibuffer = pref_buffer s1 ! iblock
             in if ibuffer < nreadblocks s1 then Inr (ibuffer, s1)
                else Inl (AssertionFailed ''ibuffer < nreadblocks'')))"

text \<open>The body of the constructor's loop, after its \<open>assert\<close>.\<close>

definition ctor_body :: "nat \<Rightarrow> block_prefetcher \<Rightarrow> block_prefetcher" where
  "ctor_body i s =
     (let s1 = s\<lparr>read_bids := (read_bids s)[i := consume_seq s ! (prefetch_seq s ! i)]\<rparr>;
          (rid, s2) = block_read i (read_bids s1 ! i)
                        \<lparr>switch_ix = prefetch_seq s1 ! i, on_complete = do_after_fetch s1\<rparr> s1;
          s3 = s2\<lparr>read_reqs := (read_reqs s2)[i := Some rid]\<rparr>
      in s3\<lparr>pref_buffer := (pref_buffer s3)[prefetch_seq s3 ! i := i]\<rparr>)"

text \<open>\<open>for (i = 0; i < nreadblocks; ++i)\<close>; reading \<open>prefetch_seq\<close> beyond its end is
  \<open>OutOfBounds\<close>.\<close>

function ctor_loop :: "nat \<Rightarrow> block_prefetcher \<Rightarrow> error + block_prefetcher" where
  "ctor_loop i s =
     (if i < nreadblocks s then
        (if length (prefetch_seq s) \<le> i then Inl OutOfBounds
         else if \<not> prefetch_seq s ! i < seq_length s
           then Inl (AssertionFailed ''prefetch_seq[i] < seq_length'')
         else ctor_loop (i + 1) (ctor_body i s))
      else Inr s)"
  by pat_completeness auto
termination
  by (relation "measure (\<lambda>(i, s). nreadblocks s - i)")
     (auto simp: ctor_body_def block_read_def Let_def)

text \<open>
  The constructor, from the consumption sequence, the prefetch sequence, the number of
  buffers and the completion handler (present or not).
\<close>

definition new_block_prefetcher :: "bid list \<Rightarrow> nat list \<Rightarrow> nat \<Rightarrow> bool
    \<Rightarrow> error + block_prefetcher" where
  "new_block_prefetcher cons pref_seq prefetch_buf_size after_fetch =
     (let n = length cons;
          k = min prefetch_buf_size n
      in if \<not> 0 < n then Inl (AssertionFailed ''seq_length > 0'')
         else if \<not> 0 < prefetch_buf_size then Inl (AssertionFailed ''_prefetch_buf_size > 0'')
         else ctor_loop 0
                \<lparr>consume_seq = cons, seq_length = n, prefetch_seq = pref_seq,
                 nextread = k, nextconsume = 0, nreadblocks = k,
                 read_buffers = replicate k None, read_reqs = replicate k None,
                 read_bids = replicate k (BID 0),
                 completed = replicate n False, pref_buffer = replicate n unassigned,
                 do_after_fetch = after_fetch, requests = [], io_log = []\<rparr>)"

text \<open>\<open>pull_block\<close>: \<open>return wait(nextconsume++);\<close>\<close>

definition pull_block :: "block_prefetcher \<Rightarrow> error + nat \<times> block_prefetcher" where
  "pull_block s = wait (nextconsume s) (s\<lparr>nextconsume := nextconsume s + 1\<rparr>)"

text \<open>
  \<open>block_consumed\<close>, on the index \<open>ibuffer = buffer - read_buffers\<close> of the caller's
  buffer. The result is the returned flag, the caller's buffer after the call, and the state.
  An index outside \<open>read_reqs\<close> is \<open>OutOfBounds\<close>.
\<close>

definition block_consumed :: "nat \<Rightarrow> block_prefetcher \<Rightarrow> error + bool \<times> nat \<times> block_prefetcher" where
  "block_consumed ibuffer s =
     (if nreadblocks s \<le> ibuffer then Inl OutOfBounds
      else
        let s1 = (case read_reqs s ! ibuffer of
                    Some rid \<Rightarrow> request_wait rid s
                  | None \<Rightarrow> s);
            s2 = s1\<lparr>read_reqs := (read_reqs s1)[ibuffer := None]\<rparr>;
            res =
              (if nextread s2 < seq_length s2 then
                 (if length (prefetch_seq s2) \<le> nextread s2 then Inl OutOfBounds
                  else
                    let next_2_prefetch = prefetch_seq s2 ! nextread s2;
                        s3 = s2\<lparr>nextread := nextread s2 + 1\<rparr>
                    in if \<not> next_2_prefetch < seq_length s3
                         then Inl (AssertionFailed ''next_2_prefetch < seq_length'')
                       else if completed s3 ! next_2_prefetch
                         then Inl (AssertionFailed ''!completed[next_2_prefetch].is_on()'')
                       else
                         let s4 = s3\<lparr>pref_buffer := (pref_buffer s3)[next_2_prefetch := ibuffer]\<rparr>;
                             s5 = s4\<lparr>read_bids := (read_bids s4)
                                         [ibuffer := consume_seq s4 ! next_2_prefetch]\<rparr>;
                             (rid, s6) = block_read ibuffer (read_bids s5 ! ibuffer)
                                           \<lparr>switch_ix = next_2_prefetch,
                                            on_complete = do_after_fetch s5\<rparr> s5
                         in Inr (s6\<lparr>read_reqs := (read_reqs s6)[ibuffer := Some rid]\<rparr>))
               else Inr s2)
        in (case res of
              Inl e \<Rightarrow> Inl e
            | Inr s7 \<Rightarrow>
                if nextconsume s7 \<ge> seq_length s7 then Inr (False, ibuffer, s7)
                else
                  (case wait (nextconsume s7) (s7\<lparr>nextconsume := nextconsume s7 + 1\<rparr>) of
                     Inl e \<Rightarrow> Inl e
                   | Inr (b, s8) \<Rightarrow> Inr (True, b, s8))))"

text \<open>\<open>empty\<close> and \<open>pos\<close>.\<close>

definition is_empty :: "block_prefetcher \<Rightarrow> bool" where
  "is_empty s = (nextconsume s \<ge> seq_length s)"

definition pos :: "block_prefetcher \<Rightarrow> nat" where
  "pos s = nextconsume s"

text \<open>The destructor waits for the request of every buffer that still has one.\<close>

definition delete_block_prefetcher :: "block_prefetcher \<Rightarrow> block_prefetcher" where
  "delete_block_prefetcher s =
     fold (\<lambda>i s. case read_reqs s ! i of Some rid \<Rightarrow> request_wait rid s | None \<Rightarrow> s)
          [0..<nreadblocks s] s"

subsection \<open>Callers\<close>

text \<open>
  A caller holds the prefetcher, the variable \<open>buffer\<close> it passes to \<open>block_consumed\<close>
  by reference (\<open>None\<close> before the first \<open>pull_block\<close>), and what the calls have returned so
  far: \<open>Block p b m d\<close> for a block (the position \<open>p\<close> that was next to consume, the
  returned buffer \<open>b\<close>, the buffer \<open>m\<close> that \<open>pref_buffer\<close> gives for \<open>p\<close> at that
  moment, and the contents \<open>d\<close> of the returned buffer), \<open>NoMore\<close> for \<open>false\<close>.
\<close>

datatype ret = Block nat nat nat "bid option" | NoMore

record caller =
  engine :: block_prefetcher
  buffer :: "nat option"
  returned :: "ret list"

text \<open>
  The steps of a run: the caller's calls (\<open>BlockConsumed\<close> passes the variable \<open>buffer\<close>,
  \<open>BlockConsumedAt b\<close> first points it to buffer \<open>b\<close> of the pool), and the
  I/O layer retiring a request at any moment between them.
\<close>

datatype call = PullBlock | BlockConsumed | BlockConsumedAt nat | IOComplete nat

definition pull_step :: "caller \<Rightarrow> error + caller" where
  "pull_step c =
     (case pull_block (engine c) of
        Inl e \<Rightarrow> Inl e
      | Inr (b, s) \<Rightarrow>
          Inr (c\<lparr>engine := s, buffer := Some b,
                 returned := returned c @
                   [Block (nextconsume (engine c)) b
                      (pref_buffer s ! nextconsume (engine c)) (read_buffers s ! b)]\<rparr>))"

definition consumed_step :: "nat \<Rightarrow> caller \<Rightarrow> error + caller" where
  "consumed_step ibuffer c =
     (case block_consumed ibuffer (engine c) of
        Inl e \<Rightarrow> Inl e
      | Inr (has_more, b, s) \<Rightarrow>
          Inr (c\<lparr>engine := s, buffer := Some b,
                 returned := returned c @
                   [if has_more
                    then Block (nextconsume (engine c)) b
                           (pref_buffer s ! nextconsume (engine c)) (read_buffers s ! b)
                    else NoMore]\<rparr>))"

fun step :: "call \<Rightarrow> caller \<Rightarrow> error + caller" where
  "step PullBlock c = pull_step c"
| "step BlockConsumed c =
     (case buffer c of
        None \<Rightarrow> Inl OutOfBounds
      | Some ibuffer \<Rightarrow> consumed_step ibuffer c)"
| "step (BlockConsumedAt b) c = consumed_step b c"
| "step (IOComplete rid) c = Inr (c\<lparr>engine := io_complete rid (engine c)\<rparr>)"

fun exec :: "call list \<Rightarrow> caller \<Rightarrow> error + caller" where
  "exec [] c = Inr c"
| "exec (x # xs) c = (case step x c of Inl e \<Rightarrow> Inl e | Inr c' \<Rightarrow> exec xs c')"

text \<open>A run from construction on.\<close>

definition run :: "bid list \<Rightarrow> nat list \<Rightarrow> nat \<Rightarrow> bool \<Rightarrow> call list \<Rightarrow> error + caller" where
  "run cons pref_seq prefetch_buf_size after_fetch calls =
     (case new_block_prefetcher cons pref_seq prefetch_buf_size after_fetch of
        Inl e \<Rightarrow> Inl e
      | Inr s \<Rightarrow> exec calls \<lparr>engine = s, buffer = None, returned = []\<rparr>)"

section \<open>Notions used by the properties\<close>

subsection \<open>Schedules\<close>

text \<open>A prefetch schedule for \<open>n\<close> positions is a permutation of the positions \<open>0..n-1\<close>.\<close>

definition valid_schedule :: "nat \<Rightarrow> nat list \<Rightarrow> bool" where
  "valid_schedule n sched = (length sched = n \<and> distinct sched \<and> list_all (\<lambda>p. p < n) sched)"

text \<open>
  With \<open>k\<close> buffers, the read of position \<open>j\<close> has been issued when the caller comes to wait
  for it exactly if \<open>j\<close> is among the first \<open>k + j\<close> entries of the schedule: \<open>k\<close> reads
  are issued by the constructor, and one more by each \<open>block_consumed\<close> before it waits.
\<close>

definition feasible :: "nat \<Rightarrow> nat list \<Rightarrow> bool" where
  "feasible k sched = list_all (\<lambda>j. j \<in> set (take (k + j) sched)) [0..<length sched]"

subsection \<open>The constructor's loop\<close>

text \<open>The request issued by the \<open>i\<close>-th round of the constructor's loop.\<close>

definition first_request :: "bid list \<Rightarrow> nat list \<Rightarrow> bool \<Rightarrow> nat \<Rightarrow> request" where
  "first_request cons sched after_fetch i =
     \<lparr>req_buffer = i, req_bid = cons ! (sched ! i),
      req_handler = \<lparr>switch_ix = sched ! i, on_complete = after_fetch\<rparr>,
      req_done = False\<rparr>"

text \<open>The state after \<open>i\<close> rounds of the constructor's loop.\<close>

definition ctor_state :: "bid list \<Rightarrow> nat list \<Rightarrow> nat \<Rightarrow> bool \<Rightarrow> nat \<Rightarrow> block_prefetcher" where
  "ctor_state cons sched prefetch_buf_size after_fetch i =
     (let n = length cons; k = min prefetch_buf_size n
      in \<lparr>consume_seq = cons, seq_length = n, prefetch_seq = sched,
          nextread = k, nextconsume = 0, nreadblocks = k,
          read_buffers = replicate k None,
          read_reqs = map Some [0..<i] @ replicate (k - i) None,
          read_bids = map (\<lambda>j. cons ! (sched ! j)) [0..<i] @ replicate (k - i) (BID 0),
          completed = replicate n False,
          pref_buffer = fold (\<lambda>j m. m[sched ! j := j]) [0..<i] (replicate n unassigned),
          do_after_fetch = after_fetch,
          requests = map (first_request cons sched after_fetch) [0..<i],
          io_log = map IssueRead [0..<i]\<rparr>)"

subsection \<open>The three parts of \<open>block_consumed\<close>\<close>

text \<open>Lines 176 to 179: wait for the request of the freed buffer, and drop it.\<close>

definition retire :: "nat \<Rightarrow> block_prefetcher \<Rightarrow> block_prefetcher" where
  "retire ibuffer s =
     (let s1 = (case read_reqs s ! ibuffer of
                  Some rid \<Rightarrow> request_wait rid s
                | None \<Rightarrow> s)
      in s1\<lparr>read_reqs := (read_reqs s1)[ibuffer := None]\<rparr>)"

text \<open>Lines 181 to 197: read the next block of the schedule into the freed buffer.\<close>

definition reissue :: "nat \<Rightarrow> block_prefetcher \<Rightarrow> error + block_prefetcher" where
  "reissue ibuffer s2 =
     (if nextread s2 < seq_length s2 then
        (if length (prefetch_seq s2) \<le> nextread s2 then Inl OutOfBounds
         else
           let next_2_prefetch = prefetch_seq s2 ! nextread s2;
               s3 = s2\<lparr>nextread := nextread s2 + 1\<rparr>
           in if \<not> next_2_prefetch < seq_length s3
                then Inl (AssertionFailed ''next_2_prefetch < seq_length'')
              else if completed s3 ! next_2_prefetch
                then Inl (AssertionFailed ''!completed[next_2_prefetch].is_on()'')
              else
                let s4 = s3\<lparr>pref_buffer := (pref_buffer s3)[next_2_prefetch := ibuffer]\<rparr>;
                    s5 = s4\<lparr>read_bids := (read_bids s4)
                                [ibuffer := consume_seq s4 ! next_2_prefetch]\<rparr>;
                    (rid, s6) = block_read ibuffer (read_bids s5 ! ibuffer)
                                  \<lparr>switch_ix = next_2_prefetch,
                                   on_complete = do_after_fetch s5\<rparr> s5
                in Inr (s6\<lparr>read_reqs := (read_reqs s6)[ibuffer := Some rid]\<rparr>))
      else Inr s2)"

text \<open>The state after the read of the next block of the schedule into buffer \<open>b\<close>.\<close>

definition issued :: "nat \<Rightarrow> block_prefetcher \<Rightarrow> block_prefetcher" where
  "issued b s =
     s\<lparr>nextread := nextread s + 1,
       pref_buffer := (pref_buffer s)[prefetch_seq s ! nextread s := b],
       read_bids := (read_bids s)[b := consume_seq s ! (prefetch_seq s ! nextread s)],
       requests := requests s @
          [\<lparr>req_buffer = b, req_bid = consume_seq s ! (prefetch_seq s ! nextread s),
            req_handler = \<lparr>switch_ix = prefetch_seq s ! nextread s,
                           on_complete = do_after_fetch s\<rparr>,
            req_done = False\<rparr>],
       io_log := io_log s @ [IssueRead (nextread s)],
       read_reqs := (read_reqs s)[b := Some (nextread s)]\<rparr>"

text \<open>Lines 199 to 204: the returned flag and the next block.\<close>

definition deliver :: "nat \<Rightarrow> block_prefetcher \<Rightarrow> error + bool \<times> nat \<times> block_prefetcher" where
  "deliver ibuffer s7 =
     (if nextconsume s7 \<ge> seq_length s7 then Inr (False, ibuffer, s7)
      else
        (case wait (nextconsume s7) (s7\<lparr>nextconsume := nextconsume s7 + 1\<rparr>) of
           Inl e \<Rightarrow> Inl e
         | Inr (b, s8) \<Rightarrow> Inr (True, b, s8)))"

subsection \<open>Reading the log\<close>

text \<open>The requests in flight after a sequence of events: issued and not yet retired.\<close>

fun track :: "event \<Rightarrow> nat list \<Rightarrow> nat list" where
  "track (IssueRead r) xs = r # xs"
| "track (ReadDone r) xs = removeAll r xs"
| "track _ xs = xs"

definition in_flight :: "event list \<Rightarrow> nat list" where
  "in_flight evs = fold track evs []"

text \<open>
  \<open>within k cur evs\<close>: starting with the requests \<open>cur\<close> in flight, at no moment
  during the events \<open>evs\<close> are more than \<open>k\<close> requests in flight.
\<close>

fun within :: "nat \<Rightarrow> nat list \<Rightarrow> event list \<Rightarrow> bool" where
  "within k cur [] = True"
| "within k cur (e # es) = (length (track e cur) \<le> k \<and> within k (track e cur) es)"

text \<open>Every wake-up of the caller for a position comes after the user's handler for it.\<close>

definition callbacks_first :: "event list \<Rightarrow> bool" where
  "callbacks_first evs =
     (\<forall>n < length evs. \<forall>p. evs ! n = Woken p \<longrightarrow> UserCallback p \<in> set (take n evs))"

fun is_signal_wait :: "event \<Rightarrow> bool" where
  "is_signal_wait (WaitSignal p) = True"
| "is_signal_wait _ = False"

text \<open>The caller's own calls in a run, without the steps of the I/O layer.\<close>

fun is_client :: "call \<Rightarrow> bool" where
  "is_client (IOComplete rid) = False"
| "is_client _ = True"

subsection \<open>Invariants of the prefetcher\<close>

text \<open>The arrays have the sizes they were allocated with, and the schedule is valid.\<close>

definition inv_shape :: "block_prefetcher \<Rightarrow> bool" where
  "inv_shape s =
     (length (consume_seq s) = seq_length s
      \<and> valid_schedule (seq_length s) (prefetch_seq s)
      \<and> length (completed s) = seq_length s
      \<and> length (pref_buffer s) = seq_length s
      \<and> length (read_reqs s) = nreadblocks s
      \<and> length (read_buffers s) = nreadblocks s
      \<and> length (read_bids s) = nreadblocks s
      \<and> 0 < nreadblocks s \<and> nreadblocks s \<le> seq_length s
      \<and> length (requests s) = nextread s \<and> nextread s \<le> seq_length s)"

text \<open>The \<open>i\<close>-th request issued is the one for the \<open>i\<close>-th entry of the schedule.\<close>

definition inv_reqs :: "block_prefetcher \<Rightarrow> bool" where
  "inv_reqs s =
     (\<forall>i < length (requests s).
        switch_ix (req_handler (requests s ! i)) = prefetch_seq s ! i
        \<and> on_complete (req_handler (requests s ! i)) = do_after_fetch s
        \<and> req_bid (requests s ! i) = consume_seq s ! (prefetch_seq s ! i)
        \<and> req_buffer (requests s ! i) = pref_buffer s ! (prefetch_seq s ! i)
        \<and> req_buffer (requests s ! i) < nreadblocks s)"

text \<open>A switch is on exactly if the request for its position has been issued and has retired.\<close>

definition inv_done :: "block_prefetcher \<Rightarrow> bool" where
  "inv_done s =
     ((\<forall>i < length (requests s). req_done (requests s ! i) = completed s ! (prefetch_seq s ! i))
      \<and> (\<forall>p < seq_length s. p \<notin> set (take (nextread s) (prefetch_seq s)) \<longrightarrow> \<not> completed s ! p))"

text \<open>
  A request in flight is the one its buffer's handle points to, a handle points to a request
  into its own buffer, and a retired request that its buffer's handle still points to has
  left its block in the buffer.
\<close>

definition inv_own :: "block_prefetcher \<Rightarrow> bool" where
  "inv_own s =
     ((\<forall>i < length (requests s). \<not> req_done (requests s ! i) \<longrightarrow>
          read_reqs s ! req_buffer (requests s ! i) = Some i)
      \<and> (\<forall>k < nreadblocks s. \<forall>rid. read_reqs s ! k = Some rid \<longrightarrow>
          rid < length (requests s) \<and> req_buffer (requests s ! rid) = k)
      \<and> (\<forall>i < length (requests s). req_done (requests s ! i)
            \<and> read_reqs s ! req_buffer (requests s ! i) = Some i \<longrightarrow>
          read_buffers s ! req_buffer (requests s ! i) = Some (req_bid (requests s ! i))))"

text \<open>The log agrees with the state.\<close>

definition inv_log :: "block_prefetcher \<Rightarrow> bool" where
  "inv_log s =
     (distinct (in_flight (io_log s))
      \<and> set (in_flight (io_log s)) = {i. i < length (requests s) \<and> \<not> req_done (requests s ! i)}
      \<and> within (nreadblocks s) [] (io_log s)
      \<and> (\<forall>p. UserCallback p \<in> set (io_log s) \<longrightarrow> p < seq_length s \<and> completed s ! p)
      \<and> (\<forall>p. count_list (io_log s) (UserCallback p) \<le> 1)
      \<and> (do_after_fetch s \<longrightarrow>
           (\<forall>p < seq_length s. completed s ! p \<longrightarrow> UserCallback p \<in> set (io_log s))
           \<and> callbacks_first (io_log s)))"

definition inv :: "block_prefetcher \<Rightarrow> bool" where
  "inv s = (inv_shape s \<and> inv_reqs s \<and> inv_done s \<and> inv_own s \<and> inv_log s)"

text \<open>
  What the I/O layer and the caller's waiting may change: requests retire, switches go on,
  buffers receive their blocks, the log grows. Everything else stays.
\<close>

definition io_progress :: "block_prefetcher \<Rightarrow> block_prefetcher \<Rightarrow> bool" where
  "io_progress s s' =
     (consume_seq s' = consume_seq s \<and> seq_length s' = seq_length s
      \<and> prefetch_seq s' = prefetch_seq s \<and> nextread s' = nextread s
      \<and> nextconsume s' = nextconsume s \<and> nreadblocks s' = nreadblocks s
      \<and> read_reqs s' = read_reqs s \<and> read_bids s' = read_bids s
      \<and> pref_buffer s' = pref_buffer s \<and> do_after_fetch s' = do_after_fetch s
      \<and> length (requests s') = length (requests s)
      \<and> (\<forall>i. req_buffer (requests s' ! i) = req_buffer (requests s ! i)
             \<and> req_bid (requests s' ! i) = req_bid (requests s ! i)
             \<and> req_handler (requests s' ! i) = req_handler (requests s ! i)
             \<and> (req_done (requests s ! i) \<longrightarrow> req_done (requests s' ! i)))
      \<and> (\<exists>evs. io_log s' = io_log s @ evs \<and> (\<forall>r. IssueRead r \<notin> set evs)))"

text \<open>What no call changes.\<close>

definition same_setup :: "block_prefetcher \<Rightarrow> block_prefetcher \<Rightarrow> bool" where
  "same_setup s s' =
     (consume_seq s' = consume_seq s \<and> seq_length s' = seq_length s
      \<and> prefetch_seq s' = prefetch_seq s \<and> nreadblocks s' = nreadblocks s
      \<and> do_after_fetch s' = do_after_fetch s)"

text \<open>
  A caller that passes to \<open>block_consumed\<close> the buffer it was handed last: every issued
  position not yet consumed, and the one handed out last, still owns its buffer; the
  caller's buffer is the one of the position handed out last, whose request has retired.
\<close>

definition inv_held :: "caller \<Rightarrow> bool" where
  "inv_held c =
     (let s = engine c in
      nextread s = min (nreadblocks s + (nextconsume s - 1)) (seq_length s)
      \<and> nextconsume s \<le> seq_length s
      \<and> (\<forall>i < length (requests s). nextconsume s \<le> prefetch_seq s ! i + 1 \<longrightarrow>
            read_reqs s ! req_buffer (requests s ! i) = Some i)
      \<and> (0 < nextconsume s \<longrightarrow>
            (\<exists>i < length (requests s). prefetch_seq s ! i + 1 = nextconsume s
               \<and> req_done (requests s ! i)
               \<and> buffer c = Some (req_buffer (requests s ! i)))))"

text \<open>After \<open>block_consumed\<close> has returned \<open>false\<close>: nothing is left to read or consume.\<close>

definition inv_exhausted :: "caller \<Rightarrow> bool" where
  "inv_exhausted c =
     (let s = engine c in
      nextread s = seq_length s \<and> nextconsume s = seq_length s
      \<and> (\<exists>b < nreadblocks s. buffer c = Some b))"

subsection \<open>What a caller is handed\<close>

fun is_block :: "ret \<Rightarrow> bool" where
  "is_block (Block p b m d) = True"
| "is_block NoMore = False"

text \<open>
  \<open>in_order cons n rs\<close>: the returns \<open>rs\<close> hand out the positions from \<open>n\<close> on, one
  after the other, each in the buffer the map gives for it and with the data of its block;
  \<open>false\<close> is returned only when all positions have been handed out, and from then on.
\<close>

fun in_order :: "bid list \<Rightarrow> nat \<Rightarrow> ret list \<Rightarrow> bool" where
  "in_order cons n [] = True"
| "in_order cons n (Block p b m d # rs) =
     (p = n \<and> n < length cons \<and> b = m \<and> d = Some (cons ! n) \<and> in_order cons (Suc n) rs)"
| "in_order cons n (NoMore # rs) = (length cons \<le> n \<and> in_order cons n rs)"

text \<open>The state of a caller that has so far passed back the buffer it was handed last.\<close>

definition disciplined :: "bid list \<Rightarrow> nat list \<Rightarrow> nat \<Rightarrow> caller \<Rightarrow> bool" where
  "disciplined cons sched k c =
     (inv (engine c) \<and> consume_seq (engine c) = cons \<and> prefetch_seq (engine c) = sched
      \<and> nreadblocks (engine c) = k \<and> seq_length (engine c) = length cons
      \<and> (inv_held c \<or> inv_exhausted c)
      \<and> in_order cons 0 (returned c)
      \<and> length (filter is_block (returned c)) = nextconsume (engine c))"

text \<open>What a run shows to the caller: the next position to consume, and the returns.\<close>

definition outcome :: "error + caller \<Rightarrow> error + nat \<times> ret list" where
  "outcome r = (case r of Inl e \<Rightarrow> Inl e | Inr c \<Rightarrow> Inr (nextconsume (engine c), returned c))"

section \<open>Example instances\<close>

text \<open>
  A pool whose free blocks hold two zeros, and a fresh stream over it with blocks of two
  records, starting at output identifier 5.
\<close>

definition wr0 :: "(nat, unit) pool_write" where
  "wr0 = (\<lambda>blk b p. (replicate 2 0, p))"

definition s0 :: "(nat, unit) buf_ostream" where
  "s0 = new_buf_ostream (\<lambda>p. (replicate 2 0, p)) () 5"

text \<open>
  Five blocks to be consumed in the order \<open>cons5\<close>, read in the order \<open>sched5\<close>
  (the scenario with two buffers).
\<close>

definition cons5 :: "bid list" where
  "cons5 = [BID 10, BID 11, BID 12, BID 13, BID 14]"

definition sched5 :: "nat list" where
  "sched5 = [2, 0, 1, 3, 4]"

section \<open>Properties of the buffered output stream\<close>

declare fill.simps [simp del]

lemma write_out_fields [simp]:
  "current_elem (write_out wr s) = 0"
  "current_bid (write_out wr s) = current_bid s + 1"
  "flushed (write_out wr s) = flushed s @ [(current_bid s, current_blk s)]"
  "current_blk (write_out wr s) = fst (wr (current_blk s) (current_bid s) (writer s))"
  "writer (write_out wr s) = snd (wr (current_blk s) (current_bid s) (writer s))"
  by (simp_all add: write_out_def split: prod.splits)

lemma write_out_ignores_offset:
  "write_out wr (s\<lparr>current_elem := e\<rparr>) = write_out wr s"
  by (simp add: write_out_def split: prod.splits)

lemma put_all_append:
  "put_all bsize wr (xs @ ys) s =
     (case put_all bsize wr xs s of Inl e \<Rightarrow> Inl e | Inr s' \<Rightarrow> put_all bsize wr ys s')"
  by (induction xs arbitrary: s) (auto split: sum.splits)

lemma put_all_within:
  "length (current_blk s) = bsize \<Longrightarrow> current_elem s + length xs < bsize \<Longrightarrow>
   put_all bsize wr xs s =
     Inr (s\<lparr>current_blk := take (current_elem s) (current_blk s) @ xs
                              @ drop (current_elem s + length xs) (current_blk s),
            current_elem := current_elem s + length xs\<rparr>)"
proof (induction xs arbitrary: s)
  case Nil
  then show ?case by simp
next
  case (Cons x xs)
  let ?s1 = "s\<lparr>current_blk := (current_blk s)[current_elem s := x],
              current_elem := current_elem s + 1\<rparr>"
  have p: "put bsize wr x s = Inr ?s1"
    using Cons.prems by (simp add: put_def Let_def)
  have "put_all bsize wr xs ?s1 =
     Inr (?s1\<lparr>current_blk := take (current_elem ?s1) (current_blk ?s1) @ xs
                              @ drop (current_elem ?s1 + length xs) (current_blk ?s1),
            current_elem := current_elem ?s1 + length xs\<rparr>)"
    by (rule Cons.IH) (use Cons.prems in simp_all)
  moreover have "take (Suc (current_elem s)) ((current_blk s)[current_elem s := x])
      = take (current_elem s) (current_blk s) @ [x]"
    using Cons.prems by (simp add: take_Suc_conv_app_nth)
  ultimately show ?case
    using p by simp
qed

lemma put_all_block:
  assumes "0 < bsize" "length (current_blk s) = bsize" "current_elem s = 0" "length ys = bsize"
  shows "put_all bsize wr ys s = Inr (write_out wr (s\<lparr>current_blk := ys\<rparr>))"
proof -
  obtain zs z where ys: "ys = zs @ [z]"
    using assms by (cases ys rule: rev_cases) auto
  let ?s1 = "s\<lparr>current_blk := zs @ drop (length zs) (current_blk s), current_elem := length zs\<rparr>"
  have 1: "put_all bsize wr zs s = Inr ?s1"
    using put_all_within [of s bsize zs wr] assms ys by simp
  have "length (drop (length zs) (current_blk s)) = 1"
    using assms ys by simp
  then obtain w where "drop (length zs) (current_blk s) = [w]"
    by (cases "drop (length zs) (current_blk s)") auto
  then have d: "(drop (length zs) (current_blk s))[0 := z] = [z]"
    by simp
  have 2: "put bsize wr z ?s1 = Inr (write_out wr (s\<lparr>current_blk := ys\<rparr>))"
    using assms ys d
    by (simp add: put_def Let_def write_out_def nth_append list_update_append split: prod.splits)
  show ?thesis
    unfolding ys put_all_append 1 using 2 ys by simp
qed

lemma put_all_blocks:
  assumes "0 < bsize" "pool_blocks bsize wr"
  shows "length (current_blk s) = bsize \<Longrightarrow> current_elem s = 0 \<Longrightarrow> length xs = bsize * m \<Longrightarrow>
    \<exists>s'. put_all bsize wr xs s = Inr s'
       \<and> flushed s' = flushed s @ map (\<lambda>k. (current_bid s + k, take bsize (drop (k * bsize) xs))) [0..<m]
       \<and> current_elem s' = 0 \<and> current_bid s' = current_bid s + m
       \<and> length (current_blk s') = bsize"
proof (induction m arbitrary: s xs)
  case 0
  then show ?case by simp
next
  case (Suc m)
  let ?ys = "take bsize xs" and ?zs = "drop bsize xs"
  let ?s1 = "write_out wr (s\<lparr>current_blk := ?ys\<rparr>)"
  have len: "length ?ys = bsize" "length ?zs = bsize * m"
    using Suc.prems by simp_all
  have 1: "put_all bsize wr ?ys s = Inr ?s1"
    using put_all_block [OF assms(1) Suc.prems(1) Suc.prems(2) len(1)] .
  have wf1: "length (current_blk ?s1) = bsize" "current_elem ?s1 = 0"
    using assms(2) by (simp_all add: pool_blocks_def)
  obtain s' where 2: "put_all bsize wr ?zs ?s1 = Inr s'"
    and f: "flushed s' = flushed ?s1 @
          map (\<lambda>k. (current_bid ?s1 + k, take bsize (drop (k * bsize) ?zs))) [0..<m]"
    and r: "current_elem s' = 0" "current_bid s' = current_bid ?s1 + m"
       "length (current_blk s') = bsize"
    using Suc.IH [OF wf1 len(2)] by blast
  have "put_all bsize wr xs s = Inr s'"
    using put_all_append [of bsize wr ?ys ?zs s] 1 2 by simp
  moreover have "flushed s' = flushed s @
      map (\<lambda>k. (current_bid s + k, take bsize (drop (k * bsize) xs))) [0..<Suc m]"
  proof -
    have "map (\<lambda>k. (current_bid s + k, take bsize (drop (k * bsize) xs))) [0..<Suc m]
        = (current_bid s, ?ys) #
          map (\<lambda>k. (current_bid s + Suc k, take bsize (drop (Suc k * bsize) xs))) [0..<m]"
      by (simp only: upt_conv_Cons [of 0 "Suc m"] map_Suc_upt [symmetric] list.map map_map comp_def)
         simp
    then show ?thesis
      using f by (simp add: add.commute)
  qed
  ultimately show ?case
    using r by simp
qed

lemma fill_pads:
  "length (current_blk s) = bsize \<Longrightarrow> 0 < current_elem s \<Longrightarrow> current_elem s < bsize \<Longrightarrow>
   n = bsize - current_elem s \<Longrightarrow>
   fill bsize wr x s = put_all bsize wr (replicate n x) s"
proof (induction n arbitrary: s)
  case 0
  then show ?case by simp
next
  case (Suc n)
  let ?s1 = "s\<lparr>current_blk := (current_blk s)[current_elem s := x],
              current_elem := current_elem s + 1\<rparr>"
  have eq: "bsize - current_elem s = Suc n"
    using Suc.prems by simp
  show ?case
  proof (cases "n = 0")
    case True
    then have p: "put bsize wr x s = Inr (write_out wr ?s1)"
      using Suc.prems by (simp add: put_def Let_def)
    have "fill bsize wr x (write_out wr ?s1) = Inr (write_out wr ?s1)"
      by (subst fill.simps) simp
    then show ?thesis
      using Suc.prems(1-3) p True eq by (subst fill.simps) simp
  next
    case False
    then have p: "put bsize wr x s = Inr ?s1"
      using Suc.prems by (simp add: put_def Let_def)
    have "fill bsize wr x ?s1 = put_all bsize wr (replicate n x) ?s1"
      by (rule Suc.IH) (use Suc.prems False in simp_all)
    then show ?thesis
      using Suc.prems(1-3) p eq by (subst fill.simps) simp
  qed
qed


lemma block_of_prefix:
  assumes "k < m"
  shows "take bsize (drop (k * bsize) (take (bsize * m) xs)) = take bsize (drop (k * bsize) xs)"
proof -
  have "bsize * m - k * bsize = bsize * (m - k)"
    by (simp add: diff_mult_distrib2 mult.commute)
  moreover have "bsize \<le> bsize * (m - k)"
    using assms by (cases "m - k") simp_all
  ultimately show ?thesis
    by (simp add: drop_take min_def)
qed

text \<open>
  C7. From a stream at offset 0, whose blocks have \<open>bsize > 0\<close> elements: appending
  \<open>bsize * m\<close> records hands exactly \<open>m\<close> blocks to the writer, the \<open>k\<close>-th holding the
  records \<open>k * bsize\<close> to \<open>(k + 1) * bsize - 1\<close> and going to the \<open>k\<close>-th next output
  identifier, and leaves the offset at 0; appending \<open>bsize * m + r\<close> records with
  \<open>0 < r < bsize\<close> hands over the same \<open>m\<close> blocks and leaves the offset at \<open>r\<close>, and
  \<open>fill x\<close> then hands over one more block, holding the last \<open>r\<close> records followed by
  \<open>bsize - r\<close> copies of \<open>x\<close>, and leaves the offset at 0.
\<close>

theorem full_blocks_then_fill:
  assumes "0 < bsize" and "pool_blocks bsize wr"
    and "length (current_blk s) = bsize" and "current_elem s = 0"
  shows "(length xs = bsize * m \<longrightarrow>
           (\<exists>s'. put_all bsize wr xs s = Inr s'
              \<and> flushed s' = flushed s @
                   map (\<lambda>k. (current_bid s + k, take bsize (drop (k * bsize) xs))) [0..<m]
              \<and> current_elem s' = 0 \<and> current_bid s' = current_bid s + m))
       \<and> (length xs = bsize * m + r \<and> 0 < r \<and> r < bsize \<longrightarrow>
           (\<exists>s' s''. put_all bsize wr xs s = Inr s'
              \<and> flushed s' = flushed s @
                   map (\<lambda>k. (current_bid s + k, take bsize (drop (k * bsize) xs))) [0..<m]
              \<and> current_elem s' = r
              \<and> fill bsize wr x s' = Inr s''
              \<and> flushed s'' = flushed s' @
                   [(current_bid s + m, drop (bsize * m) xs @ replicate (bsize - r) x)]
              \<and> current_elem s'' = 0 \<and> current_bid s'' = current_bid s + m + 1))"
proof (intro conjI impI)
  assume "length xs = bsize * m"
  then show "\<exists>s'. put_all bsize wr xs s = Inr s'
      \<and> flushed s' = flushed s @
           map (\<lambda>k. (current_bid s + k, take bsize (drop (k * bsize) xs))) [0..<m]
      \<and> current_elem s' = 0 \<and> current_bid s' = current_bid s + m"
    using put_all_blocks [OF assms(1,2,3,4), of xs m] by blast
next
  assume a: "length xs = bsize * m + r \<and> 0 < r \<and> r < bsize"
  let ?xs1 = "take (bsize * m) xs" and ?xs2 = "drop (bsize * m) xs"
  let ?pad = "replicate (bsize - r) x"
  have len: "length ?xs1 = bsize * m" "length ?xs2 = r"
    using a by simp_all
  obtain sa where 1: "put_all bsize wr ?xs1 s = Inr sa"
    and fa: "flushed sa = flushed s @
          map (\<lambda>k. (current_bid s + k, take bsize (drop (k * bsize) ?xs1))) [0..<m]"
    and ra: "current_elem sa = 0" "current_bid sa = current_bid s + m"
       "length (current_blk sa) = bsize"
    using put_all_blocks [OF assms(1,2,3,4) len(1)] by blast
  have fa': "flushed sa = flushed s @
          map (\<lambda>k. (current_bid s + k, take bsize (drop (k * bsize) xs))) [0..<m]"
    unfolding fa by (simp add: block_of_prefix)
  let ?s' = "sa\<lparr>current_blk := ?xs2 @ drop r (current_blk sa), current_elem := r\<rparr>"
  have 2: "put_all bsize wr ?xs2 sa = Inr ?s'"
    using put_all_within [of sa bsize ?xs2 wr] ra a len by simp
  have 3: "put_all bsize wr xs s = Inr ?s'"
    using put_all_append [of bsize wr ?xs1 ?xs2 s] 1 2 by simp
  let ?s'' = "write_out wr (sa\<lparr>current_blk := ?xs2 @ ?pad\<rparr>)"
  have "put_all bsize wr (?xs2 @ ?pad) sa = Inr ?s''"
    by (rule put_all_block) (use assms(1) ra a len in simp_all)
  then have "put_all bsize wr ?pad ?s' = Inr ?s''"
    using put_all_append [of bsize wr ?xs2 ?pad sa] 2 by simp
  moreover have "fill bsize wr x ?s' = put_all bsize wr ?pad ?s'"
    by (rule fill_pads) (use ra a in simp_all)
  ultimately have 4: "fill bsize wr x ?s' = Inr ?s''"
    by simp
  show "\<exists>s' s''. put_all bsize wr xs s = Inr s'
      \<and> flushed s' = flushed s @
           map (\<lambda>k. (current_bid s + k, take bsize (drop (k * bsize) xs))) [0..<m]
      \<and> current_elem s' = r
      \<and> fill bsize wr x s' = Inr s''
      \<and> flushed s'' = flushed s' @
           [(current_bid s + m, drop (bsize * m) xs @ replicate (bsize - r) x)]
      \<and> current_elem s'' = 0 \<and> current_bid s'' = current_bid s + m + 1"
    using 3 4 fa' ra by (intro exI [of _ ?s'] exI [of _ ?s'']) simp
qed

theorem full_blocks_then_fill_witness:
  "0 < (2::nat) \<and> pool_blocks 2 wr0 \<and> length (current_blk s0) = 2 \<and> current_elem s0 = 0
   \<and> (\<exists>s'. put_all 2 wr0 [1, 2, 3, 4] s0 = Inr s'
        \<and> flushed s' = [(5, [1, 2]), (6, [3, 4])] \<and> current_elem s' = 0)
   \<and> (\<exists>s' s''. put_all 2 wr0 [1, 2, 3] s0 = Inr s' \<and> flushed s' = [(5, [1, 2])]
        \<and> current_elem s' = 1 \<and> fill 2 wr0 9 s' = Inr s''
        \<and> flushed s'' = [(5, [1, 2]), (6, [3, 9])] \<and> current_elem s'' = 0)"
proof -
  have h: "0 < (2::nat)" "pool_blocks 2 wr0" "length (current_blk s0) = 2" "current_elem s0 = 0"
    by (simp_all add: pool_blocks_def wr0_def s0_def new_buf_ostream_def)
  have f0: "flushed s0 = []" "current_bid s0 = 5"
    by (simp_all add: s0_def new_buf_ostream_def)
  have u: "[0..<2] = [0, Suc 0]" by (simp add: upt_conv_Cons)
  show ?thesis
    using h full_blocks_then_fill [OF h, of "[1, 2, 3, 4]" 2 0 0]
      full_blocks_then_fill [OF h, of "[1, 2, 3]" 1 1 9]
    by (auto simp del: put_all.simps fill.simps simp add: f0 u)
qed

text \<open>
  C9. At offset 0, \<open>fill x\<close> returns the stream as it is: nothing is appended, no block
  is handed to the writer, the output iterator and the offset stay. \<open>flush\<close>, at any
  offset, hands the current block to the writer and advances the output iterator.
\<close>

theorem fill_at_offset_zero:
  "(current_elem s = 0 \<longrightarrow> fill bsize wr x s = Inr s)
   \<and> flushed (flush wr s) = flushed s @ [(current_bid s, current_blk s)]
   \<and> current_bid (flush wr s) = current_bid s + 1
   \<and> current_elem (flush wr s) = 0"
proof (intro conjI impI)
  assume "current_elem s = 0"
  then show "fill bsize wr x s = Inr s"
    by (subst fill.simps) simp
qed (simp_all add: flush_def)

theorem fill_at_offset_zero_witness:
  "current_elem s0 = 0 \<and> fill 2 wr0 9 s0 = Inr s0
   \<and> flushed (flush wr0 s0) = [(5, [0, 0])] \<and> current_bid (flush wr0 s0) = 6"
proof -
  have h: "current_elem s0 = 0"
    by (simp add: s0_def new_buf_ostream_def)
  have f0: "flushed s0 = []" "current_bid s0 = 5" "current_blk s0 = [0, 0]"
    by (simp_all add: s0_def new_buf_ostream_def numeral_2_eq_2)
  show ?thesis
    using h fill_at_offset_zero [where s = s0 and bsize = 2 and wr = wr0 and x = 9] by (simp add: f0)
qed

text \<open>
  C10. In every state of the stream and for every record \<open>r\<close>, storing \<open>r\<close> through
  the reference returned by \<open>current()\<close> (or \<open>operator *\<close>) and then applying
  \<open>operator ++\<close> gives exactly what \<open>operator <<\<close> gives for \<open>r\<close>. In particular
  \<open>operator ++\<close> at the last offset of the block hands the current block to the writer for
  the next output identifier and resets the offset to 0.
\<close>

theorem incr_after_assign_is_put:
  "(case assign_current r s of Inl e \<Rightarrow> Inl e | Inr s1 \<Rightarrow> Inr (incr bsize wr s1))
     = put bsize wr r s
   \<and> (bsize \<le> current_elem s + 1 \<longrightarrow>
        current_elem (incr bsize wr s) = 0
        \<and> flushed (incr bsize wr s) = flushed s @ [(current_bid s, current_blk s)]
        \<and> current_bid (incr bsize wr s) = current_bid s + 1)"
  by (simp add: assign_current_def incr_def put_def Let_def write_out_ignores_offset)

theorem incr_after_assign_is_put_witness:
  "(2::nat) \<le> current_elem (s0\<lparr>current_elem := 1\<rparr>) + 1
   \<and> (case assign_current 7 (s0\<lparr>current_elem := 1\<rparr>) of
         Inl e \<Rightarrow> Inl e | Inr s1 \<Rightarrow> Inr (incr 2 wr0 s1))
       = put 2 wr0 7 (s0\<lparr>current_elem := 1\<rparr>)
   \<and> current_elem (incr 2 wr0 (s0\<lparr>current_elem := 1\<rparr>)) = 0
   \<and> flushed (incr 2 wr0 (s0\<lparr>current_elem := 1\<rparr>)) = [(5, [0, 0])]"
proof -
  have f0: "flushed s0 = []" "current_bid s0 = 5" "current_blk s0 = [0, 0]"
    by (simp_all add: s0_def new_buf_ostream_def numeral_2_eq_2)
  show ?thesis
    using incr_after_assign_is_put [where r = 7 and s = "s0\<lparr>current_elem := 1\<rparr>"
        and bsize = 2 and wr = wr0]
    by (simp add: f0)
qed

section \<open>Invariants of the prefetcher\<close>

declare ctor_loop.simps [simp del]

subsection \<open>The steps of the I/O layer\<close>

lemma handler_call_eq:
  "handler_call h s =
     s\<lparr>completed := (completed s)[switch_ix h := True],
       io_log := io_log s @ (if on_complete h then [UserCallback (switch_ix h)] else [])
                   @ [SwitchOn (switch_ix h)]\<rparr>"
  by (simp add: handler_call_def)

lemma io_complete_eq:
  assumes "rid < length (requests s)" and "\<not> req_done (requests s ! rid)"
  shows "io_complete rid s =
     s\<lparr>requests := (requests s)[rid := (requests s ! rid)\<lparr>req_done := True\<rparr>],
       read_buffers := (read_buffers s)
          [req_buffer (requests s ! rid) := Some (req_bid (requests s ! rid))],
       completed := (completed s)[switch_ix (req_handler (requests s ! rid)) := True],
       io_log := io_log s @ [ReadDone rid]
          @ (if on_complete (req_handler (requests s ! rid))
             then [UserCallback (switch_ix (req_handler (requests s ! rid)))] else [])
          @ [SwitchOn (switch_ix (req_handler (requests s ! rid)))]\<rparr>"
  using assms by (simp add: io_complete_def handler_call_eq Let_def)

lemma io_complete_noop:
  "\<not> (rid < length (requests s) \<and> \<not> req_done (requests s ! rid)) \<Longrightarrow> io_complete rid s = s"
  by (auto simp: io_complete_def)

lemma io_complete_frame [simp]:
  "consume_seq (io_complete rid s) = consume_seq s"
  "seq_length (io_complete rid s) = seq_length s"
  "prefetch_seq (io_complete rid s) = prefetch_seq s"
  "nextread (io_complete rid s) = nextread s"
  "nextconsume (io_complete rid s) = nextconsume s"
  "nreadblocks (io_complete rid s) = nreadblocks s"
  "read_reqs (io_complete rid s) = read_reqs s"
  "read_bids (io_complete rid s) = read_bids s"
  "pref_buffer (io_complete rid s) = pref_buffer s"
  "do_after_fetch (io_complete rid s) = do_after_fetch s"
  "length (requests (io_complete rid s)) = length (requests s)"
  "length (read_buffers (io_complete rid s)) = length (read_buffers s)"
  "length (completed (io_complete rid s)) = length (completed s)"
  by (simp_all add: io_complete_def handler_call_eq Let_def)

subsection \<open>Reading the log\<close>

lemma in_flight_append: "in_flight (xs @ ys) = fold track ys (in_flight xs)"
  by (simp add: in_flight_def)

lemma within_append:
  "within k cur (xs @ ys) = (within k cur xs \<and> within k (fold track xs cur) ys)"
  by (induction xs arbitrary: cur) auto

lemma within_prefixes:
  "within k cur evs \<Longrightarrow> length cur \<le> k \<Longrightarrow> n \<le> length evs \<Longrightarrow>
   length (fold track (take n evs) cur) \<le> k"
proof (induction evs arbitrary: cur n)
  case Nil
  then show ?case by simp
next
  case (Cons e es)
  then show ?case by (cases n) auto
qed

lemma callbacks_first_append:
  "callbacks_first xs \<Longrightarrow> \<forall>p. Woken p \<notin> set ys \<Longrightarrow> callbacks_first (xs @ ys)"
  unfolding callbacks_first_def
proof (intro allI impI)
  fix n p
  assume cf: "\<forall>n<length xs. \<forall>p. xs ! n = Woken p \<longrightarrow> UserCallback p \<in> set (take n xs)"
    and nw: "\<forall>p. Woken p \<notin> set ys" and n: "n < length (xs @ ys)" and w: "(xs @ ys) ! n = Woken p"
  show "UserCallback p \<in> set (take n (xs @ ys))"
  proof (cases "n < length xs")
    case True
    then show ?thesis using cf w by (auto simp: nth_append)
  next
    case False
    then have "ys ! (n - length xs) = Woken p" "n - length xs < length ys"
      using w n by (auto simp: nth_append)
    then have "Woken p \<in> set ys" by (metis nth_mem)
    then show ?thesis using nw by blast
  qed
qed

lemma callbacks_first_woken:
  "callbacks_first xs \<Longrightarrow> UserCallback p \<in> set xs \<Longrightarrow> callbacks_first (xs @ [Woken p])"
  unfolding callbacks_first_def
  by (auto simp: nth_append less_Suc_eq)

lemma callbacks_first_woken_off:
  "callbacks_first xs \<Longrightarrow> callbacks_first (xs @ [WaitSignal q])"
  by (rule callbacks_first_append) auto


subsection \<open>The invariants\<close>

lemma inv_shapeD:
  assumes "inv_shape s"
  shows "length (consume_seq s) = seq_length s"
    and "length (prefetch_seq s) = seq_length s"
    and "distinct (prefetch_seq s)"
    and "\<And>i. i < seq_length s \<Longrightarrow> prefetch_seq s ! i < seq_length s"
    and "length (completed s) = seq_length s"
    and "length (pref_buffer s) = seq_length s"
    and "length (read_reqs s) = nreadblocks s"
    and "length (read_buffers s) = nreadblocks s"
    and "0 < nreadblocks s" and "nreadblocks s \<le> seq_length s"
    and "length (requests s) = nextread s" and "nextread s \<le> seq_length s"
    and "length (read_bids s) = nreadblocks s"
  using assms by (auto simp: inv_shape_def valid_schedule_def list_all_length)

lemma sched_inj:
  assumes "inv_shape s" "i < seq_length s" "j < seq_length s"
    "prefetch_seq s ! i = prefetch_seq s ! j"
  shows "i = j"
  using assms inv_shapeD(2,3) [OF assms(1)] by (simp add: nth_eq_iff_index_eq)

lemma sched_in_take:
  assumes "inv_shape s" "i < seq_length s"
  shows "prefetch_seq s ! i \<in> set (take n (prefetch_seq s)) \<longleftrightarrow> i < n"
proof
  assume "prefetch_seq s ! i \<in> set (take n (prefetch_seq s))"
  then obtain j where j: "j < n" "j < seq_length s" "prefetch_seq s ! j = prefetch_seq s ! i"
    using inv_shapeD(2) [OF assms(1)] by (auto simp: in_set_conv_nth)
  then have "j = i" using sched_inj [OF assms(1) j(2) assms(2)] by simp
  then show "i < n" using j by simp
next
  assume "i < n"
  then show "prefetch_seq s ! i \<in> set (take n (prefetch_seq s))"
    using assms inv_shapeD(2) [OF assms(1)] by (auto simp: in_set_conv_nth intro!: exI [of _ i])
qed

lemma inv_shape_io_complete: "inv_shape s \<Longrightarrow> inv_shape (io_complete rid s)"
  by (simp add: inv_shape_def)

lemma inv_reqs_io_complete: "inv_reqs s \<Longrightarrow> inv_reqs (io_complete rid s)"
proof (cases "rid < length (requests s) \<and> \<not> req_done (requests s ! rid)")
  case True
  assume "inv_reqs s"
  then show ?thesis
    using True by (auto simp add: io_complete_eq inv_reqs_def nth_list_update)
next
  case False
  assume "inv_reqs s"
  then show ?thesis using False by (simp add: io_complete_noop)
qed

lemma inv_done_io_complete:
  assumes "inv_shape s" "inv_reqs s" "inv_done s"
  shows "inv_done (io_complete rid s)"
proof (cases "rid < length (requests s) \<and> \<not> req_done (requests s ! rid)")
  case False
  then show ?thesis using assms by (simp add: io_complete_noop)
next
  case True
  note sh = inv_shapeD [OF assms(1)]
  let ?p = "prefetch_seq s ! rid"
  have sw: "switch_ix (req_handler (requests s ! rid)) = ?p"
    using assms(2) True by (auto simp add: inv_reqs_def)
  have rid: "rid < seq_length s" using True sh by simp
  have p: "?p < seq_length s" using sh(4) rid by simp
  show ?thesis
    unfolding inv_done_def
  proof (intro conjI allI impI)
    fix i assume i: "i < length (requests (io_complete rid s))"
    then have i': "i < length (requests s)" "i < seq_length s" using sh by simp_all
    show "req_done (requests (io_complete rid s) ! i)
        = completed (io_complete rid s) ! (prefetch_seq (io_complete rid s) ! i)"
    proof (cases "i = rid")
      case True
      then show ?thesis
        using \<open>rid < length (requests s) \<and> \<not> req_done (requests s ! rid)\<close> p sh(5)
        by (simp add: io_complete_eq sw)
    next
      case False
      then have "prefetch_seq s ! i \<noteq> ?p"
        using sched_inj [OF assms(1) i'(2) rid] by blast
      then show ?thesis
        using False True i' assms(3)
        by (simp add: io_complete_eq sw inv_done_def)
    qed
  next
    fix q assume q: "q < seq_length (io_complete rid s)"
      "q \<notin> set (take (nextread (io_complete rid s)) (prefetch_seq (io_complete rid s)))"
    have "?p \<in> set (take (nextread s) (prefetch_seq s))"
      using sched_in_take [OF assms(1) rid] True sh by simp
    then have "q \<noteq> ?p" using q by auto
    then show "\<not> completed (io_complete rid s) ! q"
      using q True assms(3) by (simp add: io_complete_eq sw inv_done_def)
  qed
qed

lemma inv_own_io_complete:
  assumes "inv_shape s" "inv_reqs s" "inv_own s"
  shows "inv_own (io_complete rid s)"
proof (cases "rid < length (requests s) \<and> \<not> req_done (requests s ! rid)")
  case False
  then show ?thesis using assms by (simp add: io_complete_noop)
next
  case True
  note sh = inv_shapeD [OF assms(1)]
  have own: "read_reqs s ! req_buffer (requests s ! rid) = Some rid"
    using assms(3) True by (simp add: inv_own_def)
  have lt: "req_buffer (requests s ! rid) < nreadblocks s"
    using assms(2) True by (auto simp add: inv_reqs_def)
  show ?thesis
    unfolding inv_own_def
  proof (intro conjI allI impI)
    fix i assume "i < length (requests (io_complete rid s))"
      "\<not> req_done (requests (io_complete rid s) ! i)"
    then show "read_reqs (io_complete rid s) ! req_buffer (requests (io_complete rid s) ! i) = Some i"
      using True assms(3)
      by (cases "i = rid") (simp_all add: io_complete_eq inv_own_def)
  next
    fix k r assume "k < nreadblocks (io_complete rid s)" "read_reqs (io_complete rid s) ! k = Some r"
    then have "r < length (requests (io_complete rid s))
        \<and> req_buffer (requests (io_complete rid s) ! r) = k"
      using True assms(3)
      by (cases "r = rid") (auto simp add: io_complete_eq inv_own_def)
    then show "r < length (requests (io_complete rid s))"
      and "req_buffer (requests (io_complete rid s) ! r) = k"
      by simp_all
  next
    fix i assume i: "i < length (requests (io_complete rid s))"
      "req_done (requests (io_complete rid s) ! i)
       \<and> read_reqs (io_complete rid s) ! req_buffer (requests (io_complete rid s) ! i) = Some i"
    show "read_buffers (io_complete rid s) ! req_buffer (requests (io_complete rid s) ! i)
        = Some (req_bid (requests (io_complete rid s) ! i))"
    proof (cases "i = rid")
      case True
      then show ?thesis
        using \<open>rid < length (requests s) \<and> \<not> req_done (requests s ! rid)\<close> lt sh(8)
        by (simp add: io_complete_eq)
    next
      case False
      then have "req_buffer (requests s ! i) \<noteq> req_buffer (requests s ! rid)"
        using i own True by (auto simp: io_complete_eq)
      then show ?thesis
        using False True i assms(3) by (simp add: io_complete_eq inv_own_def)
    qed
  qed
qed


lemma within_length:
  assumes "within k [] evs"
  shows "length (in_flight evs) \<le> k"
  using within_prefixes [OF assms, of "length evs"] by (simp add: in_flight_def)

lemma nth_update_True: "xs ! q \<Longrightarrow> xs[i := True] ! q"
  by (cases "i < length xs") (auto simp: nth_list_update list_update_beyond)

lemma inv_log_io_complete:
  assumes "inv_shape s" "inv_reqs s" "inv_done s" "inv_log s"
  shows "inv_log (io_complete rid s)"
proof (cases "rid < length (requests s) \<and> \<not> req_done (requests s ! rid)")
  case False
  then show ?thesis using assms by (simp add: io_complete_noop)
next
  case True
  note sh = inv_shapeD [OF assms(1)]
  let ?p = "prefetch_seq s ! rid"
  let ?s' = "io_complete rid s"
  have sw: "switch_ix (req_handler (requests s ! rid)) = ?p"
    and cb: "on_complete (req_handler (requests s ! rid)) = do_after_fetch s"
    using assms(2) True by (auto simp add: inv_reqs_def)
  have rid: "rid < seq_length s" using True sh by simp
  have p: "?p < seq_length s" using sh(4) rid by simp
  have off: "\<not> completed s ! ?p"
    using assms(3) True by (auto simp add: inv_done_def)
  have fresh: "UserCallback ?p \<notin> set (io_log s)"
    using assms(4) off by (auto simp: inv_log_def)
  have log': "io_log ?s' = io_log s @ [ReadDone rid]
      @ (if do_after_fetch s then [UserCallback ?p] else []) @ [SwitchOn ?p]"
    using True by (simp add: io_complete_eq sw cb)
  have fl: "in_flight (io_log ?s') = removeAll rid (in_flight (io_log s))"
    unfolding log' by (simp add: in_flight_append)
  have 1: "distinct (in_flight (io_log ?s'))"
    using assms(4) unfolding fl by (simp add: inv_log_def distinct_removeAll)
  have 2: "set (in_flight (io_log ?s'))
      = {i. i < length (requests ?s') \<and> \<not> req_done (requests ?s' ! i)}"
    using assms(4) True unfolding fl
    by (auto simp: inv_log_def io_complete_eq nth_list_update)
  have le: "length (in_flight (io_log s)) \<le> nreadblocks s"
    using assms(4) within_length by (simp add: inv_log_def)
  have 3: "within (nreadblocks ?s') [] (io_log ?s')"
    using assms(4) le le_trans [OF length_removeAll_less_eq le]
    unfolding log' by (simp add: inv_log_def within_append in_flight_def [symmetric])
  have 4: "\<forall>q. UserCallback q \<in> set (io_log ?s') \<longrightarrow> q < seq_length ?s' \<and> completed ?s' ! q"
  proof (intro allI impI)
    fix q assume "UserCallback q \<in> set (io_log ?s')"
    then consider "UserCallback q \<in> set (io_log s)" | "q = ?p"
      unfolding log' by (auto split: if_splits)
    then show "q < seq_length ?s' \<and> completed ?s' ! q"
    proof cases
      case 1
      then have "q < seq_length s \<and> completed s ! q"
        using assms(4) by (simp add: inv_log_def)
      then show ?thesis
        using True by (simp add: io_complete_eq nth_update_True)
    next
      case 2
      then show ?thesis
        using True p sh(5) by (simp add: io_complete_eq sw)
    qed
  qed
  have 5: "\<forall>q. count_list (io_log ?s') (UserCallback q) \<le> 1"
  proof
    fix q
    have old: "count_list (io_log s) (UserCallback q) \<le> 1"
      using assms(4) by (simp add: inv_log_def)
    have "count_list (io_log s) (UserCallback ?p) = 0"
      using fresh by (simp add: count_list_0_iff)
    then show "count_list (io_log ?s') (UserCallback q) \<le> 1"
      using old unfolding log' by (cases "q = ?p") auto
  qed
  have 6: "do_after_fetch ?s' \<longrightarrow>
      (\<forall>q < seq_length ?s'. completed ?s' ! q \<longrightarrow> UserCallback q \<in> set (io_log ?s'))
      \<and> callbacks_first (io_log ?s')"
  proof (intro impI conjI allI)
    fix q assume d: "do_after_fetch ?s'" and q: "q < seq_length ?s'" "completed ?s' ! q"
    show "UserCallback q \<in> set (io_log ?s')"
    proof (cases "q = ?p")
      case True
      then show ?thesis using d unfolding log' by simp
    next
      case False
      then have "completed s ! q"
        using q True by (simp add: io_complete_eq sw)
      then have "UserCallback q \<in> set (io_log s)"
        using assms(4) d q by (simp add: inv_log_def)
      then show ?thesis unfolding log' by simp
    qed
  next
    assume d: "do_after_fetch ?s'"
    then have "callbacks_first (io_log s)"
      using assms(4) by (simp add: inv_log_def)
    then show "callbacks_first (io_log ?s')"
      unfolding log' by (rule callbacks_first_append) simp
  qed
  show ?thesis
    unfolding inv_log_def using 1 2 3 4 5 6 by blast
qed

lemma inv_io_complete: "inv s \<Longrightarrow> inv (io_complete rid s)"
  unfolding inv_def
  using inv_shape_io_complete inv_reqs_io_complete inv_done_io_complete inv_own_io_complete
    inv_log_io_complete by blast


lemma inv_parts_nextconsume [simp]:
  "inv_shape (s\<lparr>nextconsume := n\<rparr>) = inv_shape s"
  "inv_reqs (s\<lparr>nextconsume := n\<rparr>) = inv_reqs s"
  "inv_done (s\<lparr>nextconsume := n\<rparr>) = inv_done s"
  "inv_own (s\<lparr>nextconsume := n\<rparr>) = inv_own s"
  "inv_log (s\<lparr>nextconsume := n\<rparr>) = inv_log s"
  by (simp_all add: inv_shape_def inv_reqs_def inv_done_def inv_own_def inv_log_def)

lemma inv_nextconsume [simp]: "inv (s\<lparr>nextconsume := n\<rparr>) = inv s"
  by (simp add: inv_def)

lemma inv_parts_io_log [simp]:
  "inv_shape (s\<lparr>io_log := l\<rparr>) = inv_shape s"
  "inv_reqs (s\<lparr>io_log := l\<rparr>) = inv_reqs s"
  "inv_done (s\<lparr>io_log := l\<rparr>) = inv_done s"
  "inv_own (s\<lparr>io_log := l\<rparr>) = inv_own s"
  by (simp_all add: inv_shape_def inv_reqs_def inv_done_def inv_own_def)

lemma inv_log_quiet:
  assumes "inv s" and "e = ReqWait r \<or> e = WaitSignal r \<or> e = SwitchOn r"
  shows "inv (s\<lparr>io_log := io_log s @ [e]\<rparr>)"
proof -
  have cf: "callbacks_first (io_log s) \<Longrightarrow> callbacks_first (io_log s @ [e])"
    using assms(2) by (intro callbacks_first_append) auto
  have "inv_log (s\<lparr>io_log := io_log s @ [e]\<rparr>)"
    using assms cf within_length [of "nreadblocks s" "io_log s"]
    by (auto simp: inv_def inv_log_def in_flight_append within_append in_flight_def [symmetric])
  then show ?thesis
    using assms(1) by (simp add: inv_def)
qed

lemma inv_log_woken:
  assumes "inv s" and "p < seq_length s" and "completed s ! p"
  shows "inv (s\<lparr>io_log := io_log s @ [Woken p]\<rparr>)"
proof -
  have cf: "do_after_fetch s \<Longrightarrow> callbacks_first (io_log s @ [Woken p])"
    using assms by (intro callbacks_first_woken) (auto simp: inv_def inv_log_def)
  have "inv_log (s\<lparr>io_log := io_log s @ [Woken p]\<rparr>)"
    using assms(1) cf within_length [of "nreadblocks s" "io_log s"]
    by (auto simp: inv_def inv_log_def in_flight_append within_append in_flight_def [symmetric])
  then show ?thesis
    using assms(1) by (simp add: inv_def)
qed

lemma inv_request_wait: "inv s \<Longrightarrow> inv (request_wait rid s)"
  unfolding request_wait_def
  by (intro inv_io_complete inv_log_quiet) auto

lemma request_wait_frame [simp]:
  "consume_seq (request_wait rid s) = consume_seq s"
  "seq_length (request_wait rid s) = seq_length s"
  "prefetch_seq (request_wait rid s) = prefetch_seq s"
  "nextread (request_wait rid s) = nextread s"
  "nextconsume (request_wait rid s) = nextconsume s"
  "nreadblocks (request_wait rid s) = nreadblocks s"
  "read_reqs (request_wait rid s) = read_reqs s"
  "read_bids (request_wait rid s) = read_bids s"
  "pref_buffer (request_wait rid s) = pref_buffer s"
  "do_after_fetch (request_wait rid s) = do_after_fetch s"
  "length (requests (request_wait rid s)) = length (requests s)"
  by (simp_all add: request_wait_def)

lemma io_complete_done:
  "rid < length (requests s) \<Longrightarrow> req_done (requests (io_complete rid s) ! rid)"
  by (cases "req_done (requests s ! rid)") (simp_all add: io_complete_eq io_complete_noop)

lemma io_complete_static:
  "req_buffer (requests (io_complete rid s) ! i) = req_buffer (requests s ! i)"
  "req_bid (requests (io_complete rid s) ! i) = req_bid (requests s ! i)"
  "req_handler (requests (io_complete rid s) ! i) = req_handler (requests s ! i)"
  "req_done (requests s ! i) \<Longrightarrow> req_done (requests (io_complete rid s) ! i)"
  by (cases "rid < length (requests s) \<and> \<not> req_done (requests s ! rid)";
      cases "i = rid"; simp add: io_complete_eq io_complete_noop)+

lemma request_wait_done:
  "rid < length (requests s) \<Longrightarrow> req_done (requests (request_wait rid s) ! rid)"
  by (simp add: request_wait_def io_complete_done)

lemma request_wait_static:
  "req_buffer (requests (request_wait rid s) ! i) = req_buffer (requests s ! i)"
  "req_bid (requests (request_wait rid s) ! i) = req_bid (requests s ! i)"
  "req_handler (requests (request_wait rid s) ! i) = req_handler (requests s ! i)"
  "req_done (requests s ! i) \<Longrightarrow> req_done (requests (request_wait rid s) ! i)"
  by (simp_all add: request_wait_def io_complete_static)

subsection \<open>Progress of the I/O layer\<close>

lemma io_progress_refl [simp]: "io_progress s s"
  by (simp add: io_progress_def)

lemma io_progress_trans:
  assumes "io_progress s s'" and "io_progress s' s''"
  shows "io_progress s s''"
proof -
  obtain e1 e2 where e: "io_log s' = io_log s @ e1" "\<forall>r. IssueRead r \<notin> set e1"
    "io_log s'' = io_log s' @ e2" "\<forall>r. IssueRead r \<notin> set e2"
    using assms unfolding io_progress_def by blast
  have "io_log s'' = io_log s @ (e1 @ e2) \<and> (\<forall>r. IssueRead r \<notin> set (e1 @ e2))"
    using e by simp
  then have "\<exists>evs. io_log s'' = io_log s @ evs \<and> (\<forall>r. IssueRead r \<notin> set evs)"
    by blast
  then show ?thesis
    using assms unfolding io_progress_def by simp
qed

lemma io_progress_log:
  "\<forall>r. e \<noteq> IssueRead r \<Longrightarrow> io_progress s (s\<lparr>io_log := io_log s @ [e]\<rparr>)"
  by (auto simp add: io_progress_def)

lemma io_progress_io_complete: "io_progress s (io_complete rid s)"
proof (cases "rid < length (requests s) \<and> \<not> req_done (requests s ! rid)")
  case True
  then have "\<exists>evs. io_log (io_complete rid s) = io_log s @ evs \<and> (\<forall>r. IssueRead r \<notin> set evs)"
    by (simp add: io_complete_eq)
  then show ?thesis
    by (simp add: io_progress_def io_complete_static)
next
  case False
  then show ?thesis by (simp add: io_complete_noop)
qed

lemma io_progress_request_wait: "io_progress s (request_wait rid s)"
  unfolding request_wait_def
  by (rule io_progress_trans [OF io_progress_log io_progress_io_complete]) simp

subsection \<open>Waiting for a switch\<close>

lemma wait_for_on_on:
  "completed s ! p \<Longrightarrow>
   wait_for_on p s = Inr (s\<lparr>io_log := io_log s @ [WaitSignal p, Woken p]\<rparr>)"
  by (simp add: wait_for_on_def)

lemma wait_for_on_off:
  assumes "\<not> completed s ! p"
  shows "wait_for_on p s =
     (case List.find (\<lambda>rid. \<not> req_done (requests s ! rid)
                           \<and> switch_ix (req_handler (requests s ! rid)) = p)
                     [0..<length (requests s)] of
        None \<Rightarrow> Inl Blocked
      | Some rid \<Rightarrow>
          let s2 = io_complete rid (s\<lparr>io_log := io_log s @ [WaitSignal p]\<rparr>)
          in Inr (s2\<lparr>io_log := io_log s2 @ [Woken p]\<rparr>))"
  using assms by (simp add: wait_for_on_def)

lemma wait_for_on_inv:
  assumes "inv s" and "p < seq_length s" and "wait_for_on p s = Inr s'"
  shows "inv s' \<and> io_progress s s' \<and> completed s' ! p"
proof (cases "completed s ! p")
  case True
  let ?s1 = "s\<lparr>io_log := io_log s @ [WaitSignal p]\<rparr>"
  have s': "s' = ?s1\<lparr>io_log := io_log ?s1 @ [Woken p]\<rparr>"
    using assms(3) True by (simp add: wait_for_on_on)
  have 1: "inv ?s1" by (rule inv_log_quiet [OF assms(1)]) simp
  have "inv s'" unfolding s' by (rule inv_log_woken [OF 1]) (use assms(2) True in simp_all)
  moreover have "io_progress s s'"
    unfolding s' by (simp add: io_progress_def)
  ultimately show ?thesis using True s' by simp
next
  case False
  let ?s1 = "s\<lparr>io_log := io_log s @ [WaitSignal p]\<rparr>"
  from assms(3) False obtain rid where
    f: "List.find (\<lambda>rid. \<not> req_done (requests s ! rid)
                           \<and> switch_ix (req_handler (requests s ! rid)) = p)
                     [0..<length (requests s)] = Some rid"
    and s': "s' = (io_complete rid ?s1)\<lparr>io_log := io_log (io_complete rid ?s1) @ [Woken p]\<rparr>"
    by (auto simp: wait_for_on_off Let_def split: option.splits)
  from f have rid: "rid < length (requests s)" "\<not> req_done (requests s ! rid)"
    "switch_ix (req_handler (requests s ! rid)) = p"
    by (auto simp: find_Some_iff)
  have 1: "inv ?s1" by (rule inv_log_quiet [OF assms(1)]) simp
  have 2: "inv (io_complete rid ?s1)" by (rule inv_io_complete [OF 1])
  have len: "length (completed s) = seq_length s"
    using assms(1) by (simp add: inv_def inv_shapeD)
  have on: "completed (io_complete rid ?s1) ! p"
    using rid assms(2) len by (simp add: io_complete_eq)
  have "inv s'"
    unfolding s' by (rule inv_log_woken [OF 2]) (use assms(2) on in simp_all)
  moreover have "io_progress s s'"
    unfolding s'
    by (rule io_progress_trans [OF io_progress_log
          io_progress_trans [OF io_progress_io_complete io_progress_log]]) simp_all
  ultimately show ?thesis using on s' by simp
qed

lemma wait_for_on_returns:
  assumes "inv s" and "i < nextread s" and "prefetch_seq s ! i = p"
  shows "\<exists>s'. wait_for_on p s = Inr s'"
proof (cases "completed s ! p")
  case True
  then show ?thesis by (simp add: wait_for_on_on)
next
  case False
  have i: "i < length (requests s)"
    using assms by (simp add: inv_def inv_shapeD)
  have "\<not> req_done (requests s ! i)" "switch_ix (req_handler (requests s ! i)) = p"
    using assms i False by (auto simp: inv_def inv_done_def inv_reqs_def)
  then have "List.find (\<lambda>rid. \<not> req_done (requests s ! rid)
                           \<and> switch_ix (req_handler (requests s ! rid)) = p)
                     [0..<length (requests s)] \<noteq> None"
    using i by (auto simp: find_None_iff)
  then show ?thesis
    using False by (auto simp: wait_for_on_off Let_def split: option.splits)
qed

lemma wait_for_on_waits:
  assumes "wait_for_on p s = Inr s'"
  shows "\<exists>evs. io_log s' = io_log s @ WaitSignal p # evs @ [Woken p]"
proof (cases "completed s ! p")
  case True
  then show ?thesis using assms by (auto simp: wait_for_on_on)
next
  case False
  let ?s1 = "s\<lparr>io_log := io_log s @ [WaitSignal p]\<rparr>"
  from assms False obtain rid where
    s': "s' = (io_complete rid ?s1)\<lparr>io_log := io_log (io_complete rid ?s1) @ [Woken p]\<rparr>"
    by (auto simp: wait_for_on_off Let_def split: option.splits)
  obtain evs where "io_log (io_complete rid ?s1) = io_log ?s1 @ evs"
    using io_progress_io_complete [of ?s1 rid] by (auto simp: io_progress_def)
  then show ?thesis unfolding s' by simp
qed

subsection \<open>\<open>wait\<close> and \<open>pull_block\<close>\<close>

lemma wait_inv:
  assumes "inv s" and "wait p s = Inr (b, s')"
  shows "inv s' \<and> io_progress s s' \<and> completed s' ! p \<and> p < seq_length s
      \<and> b = pref_buffer s' ! p \<and> b < nreadblocks s'"
proof -
  from assms(2) have p: "p < seq_length s"
    by (auto simp: wait_def split: if_splits)
  from assms(2) p obtain s1 where w: "wait_for_on p s = Inr s1"
    by (auto simp: wait_def split: sum.splits)
  from assms(2) p w have "s' = s1" "b = pref_buffer s1 ! p" "b < nreadblocks s1"
    by (auto simp: wait_def Let_def split: if_splits)
  then show ?thesis
    using wait_for_on_inv [OF assms(1) p w] p by simp
qed

lemma wait_returns:
  assumes "inv s" and "i < nextread s" and "prefetch_seq s ! i = p"
  shows "\<exists>b s'. wait p s = Inr (b, s')"
proof -
  note sh = inv_shapeD [OF assms(1) [unfolded inv_def, THEN conjunct1]]
  have i: "i < seq_length s" "i < length (requests s)" using assms(2) sh by simp_all
  then have p: "p < seq_length s" using sh(4) assms(3) by auto
  obtain s1 where w: "wait_for_on p s = Inr s1"
    using wait_for_on_returns [OF assms] by blast
  note r = wait_for_on_inv [OF assms(1) p w]
  then have "inv_reqs s1" and pr: "io_progress s s1"
    by (simp_all add: inv_def)
  then have "req_buffer (requests s1 ! i) = pref_buffer s1 ! (prefetch_seq s1 ! i)
      \<and> req_buffer (requests s1 ! i) < nreadblocks s1"
    using i by (auto simp: inv_reqs_def io_progress_def)
  then have "pref_buffer s1 ! p < nreadblocks s1"
    using pr assms(3) by (auto simp: io_progress_def)
  then show ?thesis
    using p w by (simp add: wait_def)
qed


subsection \<open>The parts of \<open>block_consumed\<close>\<close>

lemma block_consumed_parts:
  "block_consumed b s =
     (if nreadblocks s \<le> b then Inl OutOfBounds
      else case reissue b (retire b s) of
             Inl e \<Rightarrow> Inl e
           | Inr s7 \<Rightarrow> deliver b s7)"
  unfolding block_consumed_def retire_def reissue_def deliver_def Let_def by simp

text \<open>The state between waiting for the old request and dropping the handle.\<close>

lemma retire_waited:
  assumes "inv s" and "b < nreadblocks s"
  defines "s1 \<equiv> (case read_reqs s ! b of Some rid \<Rightarrow> request_wait rid s | None \<Rightarrow> s)"
  shows "inv s1" and "io_progress s s1"
    and "\<And>i. i < length (requests s1) \<Longrightarrow> req_buffer (requests s1 ! i) = b \<Longrightarrow>
           req_done (requests s1 ! i)"
proof -
  show 1: "inv s1" and 2: "io_progress s s1"
    unfolding s1_def using assms(1)
    by (auto split: option.splits intro: inv_request_wait io_progress_request_wait)
  fix i assume i: "i < length (requests s1)" "req_buffer (requests s1 ! i) = b"
  show "req_done (requests s1 ! i)"
  proof (rule ccontr)
    assume nd: "\<not> req_done (requests s1 ! i)"
    then have "read_reqs s1 ! b = Some i"
      using 1 i by (auto simp: inv_def inv_own_def)
    then have h: "read_reqs s ! b = Some i"
      using 2 by (simp add: io_progress_def)
    then have "s1 = request_wait i s" by (simp add: s1_def)
    moreover have "i < length (requests s)"
      using i 2 by (simp add: io_progress_def)
    ultimately show False
      using nd request_wait_done by simp
  qed
qed

lemma retire_eq:
  "retire b s =
     (case read_reqs s ! b of Some rid \<Rightarrow> request_wait rid s | None \<Rightarrow> s)
       \<lparr>read_reqs := (read_reqs s)[b := None]\<rparr>"
  by (cases "read_reqs s ! b") (simp_all add: retire_def)

lemma inv_parts_read_reqs [simp]:
  "length l = length (read_reqs s) \<Longrightarrow> inv_shape (s\<lparr>read_reqs := l\<rparr>) = inv_shape s"
  "inv_reqs (s\<lparr>read_reqs := l\<rparr>) = inv_reqs s"
  "inv_done (s\<lparr>read_reqs := l\<rparr>) = inv_done s"
  "inv_log (s\<lparr>read_reqs := l\<rparr>) = inv_log s"
  by (simp_all add: inv_shape_def inv_reqs_def inv_done_def inv_log_def)

lemma inv_retire:
  assumes "inv s" and "b < nreadblocks s"
  shows "inv (retire b s)"
proof -
  define s1 where "s1 = (case read_reqs s ! b of Some rid \<Rightarrow> request_wait rid s | None \<Rightarrow> s)"
  note w = retire_waited [OF assms, folded s1_def]
  have rr: "read_reqs s1 = read_reqs s" and k: "nreadblocks s1 = nreadblocks s"
    using w(2) by (simp_all add: io_progress_def)
  have s2: "retire b s = s1\<lparr>read_reqs := (read_reqs s1)[b := None]\<rparr>"
    unfolding retire_eq s1_def [symmetric] by (simp add: rr)
  have own: "inv_own s1" and len: "length (read_reqs s1) = nreadblocks s1"
    using w(1) by (simp_all add: inv_def inv_shapeD)
  let ?s2 = "s1\<lparr>read_reqs := (read_reqs s1)[b := None]\<rparr>"
  have f: "requests ?s2 = requests s1" "read_reqs ?s2 = (read_reqs s1)[b := None]"
    "nreadblocks ?s2 = nreadblocks s1" "read_buffers ?s2 = read_buffers s1"
    by simp_all
  have "inv_own ?s2"
    unfolding inv_own_def f
  proof (intro conjI allI impI)
    fix i assume i: "i < length (requests s1)" "\<not> req_done (requests s1 ! i)"
    then have "req_buffer (requests s1 ! i) \<noteq> b" using w(3) by blast
    then show "(read_reqs s1)[b := None] ! req_buffer (requests s1 ! i) = Some i"
      using own i by (simp add: inv_own_def)
  next
    fix k r assume "k < nreadblocks s1" "(read_reqs s1)[b := None] ! k = Some r"
    then have "r < length (requests s1) \<and> req_buffer (requests s1 ! r) = k"
      using own len by (cases "k = b") (auto simp: inv_own_def)
    then show "r < length (requests s1)" and "req_buffer (requests s1 ! r) = k"
      by simp_all
  next
    fix i assume i: "i < length (requests s1)"
      "req_done (requests s1 ! i) \<and> (read_reqs s1)[b := None] ! req_buffer (requests s1 ! i) = Some i"
    then have "req_buffer (requests s1 ! i) \<noteq> b"
      using assms(2) len k by (auto simp: nth_list_update split: if_splits)
    then show "read_buffers s1 ! req_buffer (requests s1 ! i) = Some (req_bid (requests s1 ! i))"
      using own i by (simp add: inv_own_def)
  qed
  moreover have "inv_shape (s1\<lparr>read_reqs := (read_reqs s1)[b := None]\<rparr>)"
    "inv_reqs (s1\<lparr>read_reqs := (read_reqs s1)[b := None]\<rparr>)"
    "inv_done (s1\<lparr>read_reqs := (read_reqs s1)[b := None]\<rparr>)"
    "inv_log (s1\<lparr>read_reqs := (read_reqs s1)[b := None]\<rparr>)"
    using w(1) by (simp_all add: inv_def)
  ultimately show ?thesis
    unfolding s2 inv_def by simp
qed

lemma retire_handles: "read_reqs (retire b s) = (read_reqs s)[b := None]"
  by (simp add: retire_eq)

lemma retire_frame:
  "\<exists>s1. io_progress s s1 \<and> retire b s = s1\<lparr>read_reqs := (read_reqs s)[b := None]\<rparr>"
proof (cases "read_reqs s ! b")
  case None
  then show ?thesis
    unfolding retire_eq by (intro exI [of _ s]) simp
next
  case (Some rid)
  then show ?thesis
    unfolding retire_eq
    by (intro exI [of _ "request_wait rid s"]) (simp add: io_progress_request_wait)
qed

lemma retire_slot_done:
  assumes "inv s" and "b < nreadblocks s"
    and "i < length (requests (retire b s))" and "req_buffer (requests (retire b s) ! i) = b"
  shows "req_done (requests (retire b s) ! i)"
  using retire_waited(3) [OF assms(1,2), of i] assms(3,4)
  by (simp add: retire_eq)

lemma in_flight_room:
  assumes "inv s" and "b < nreadblocks s" and "read_reqs s ! b = None"
  shows "length (in_flight (io_log s)) < nreadblocks s"
proof -
  let ?S = "{i. i < length (requests s) \<and> \<not> req_done (requests s ! i)}"
  let ?f = "\<lambda>i. req_buffer (requests s ! i)"
  have il: "inv_log s" and io: "inv_own s" and ir: "inv_reqs s"
    using assms(1) by (simp_all add: inv_def)
  have S: "set (in_flight (io_log s)) = ?S"
    and d: "distinct (in_flight (io_log s))"
    using il unfolding inv_log_def by simp_all
  have own: "read_reqs s ! ?f i = Some i" if "i \<in> ?S" for i
    using io [unfolded inv_own_def, THEN conjunct1, rule_format, of i] that by simp
  have lt: "?f i < nreadblocks s" if "i \<in> ?S" for i
    using ir [unfolded inv_reqs_def, rule_format, of i] that by simp
  have inj: "inj_on ?f ?S"
  proof (rule inj_onI)
    fix i j assume i: "i \<in> ?S" and j: "j \<in> ?S" and e: "?f i = ?f j"
    have "Some i = read_reqs s ! ?f i" using own [OF i] by (rule sym)
    also have "\<dots> = read_reqs s ! ?f j" by (simp only: e)
    also have "\<dots> = Some j" by (rule own [OF j])
    finally show "i = j" by (simp only: option.inject)
  qed
  have sub: "?f ` ?S \<subseteq> {..<nreadblocks s} - {b}"
  proof
    fix k assume "k \<in> ?f ` ?S"
    then obtain i where i: "i \<in> ?S" and k: "k = ?f i" by (rule imageE)
    have 1: "k < nreadblocks s" unfolding k by (rule lt [OF i])
    have 2: "read_reqs s ! k = Some i" unfolding k by (rule own [OF i])
    have "k \<noteq> b" using 2 assms(3) by auto
    then show "k \<in> {..<nreadblocks s} - {b}"
      using 1 by simp
  qed
  have fin: "finite ({..<nreadblocks s} - {b})" by simp
  have "card ?S = card (?f ` ?S)"
    using card_image [OF inj] by simp
  also have "\<dots> \<le> card ({..<nreadblocks s} - {b})"
    by (rule card_mono [OF fin sub])
  also have "\<dots> < nreadblocks s"
    using assms(2) by (simp add: card_Diff_singleton)
  finally have "card ?S < nreadblocks s" .
  moreover have "length (in_flight (io_log s)) = card ?S"
    using distinct_card [OF d] S by simp
  ultimately show ?thesis by simp
qed

lemma reissue_more:
  assumes "inv s" and "b < nreadblocks s" and "nextread s < seq_length s"
  shows "reissue b s = Inr (issued b s)"
proof -
  note sh = inv_shapeD [OF assms(1) [unfolded inv_def, THEN conjunct1]]
  let ?p = "prefetch_seq s ! nextread s"
  have p: "?p < seq_length s" using sh(4) assms(3) by simp
  have "?p \<notin> set (take (nextread s) (prefetch_seq s))"
    using sched_in_take [OF assms(1) [unfolded inv_def, THEN conjunct1] assms(3), of "nextread s"]
    by simp
  then have off: "\<not> completed s ! ?p"
    using assms(1) p by (auto simp: inv_def inv_done_def)
  show ?thesis
    using assms(2,3) p off sh
    by (simp add: reissue_def issued_def block_read_def Let_def)
qed

lemma reissue_none: "\<not> nextread s < seq_length s \<Longrightarrow> reissue b s = Inr s"
  by (simp add: reissue_def)

lemma issued_fields [simp]:
  "consume_seq (issued b s) = consume_seq s"
  "seq_length (issued b s) = seq_length s"
  "prefetch_seq (issued b s) = prefetch_seq s"
  "nextread (issued b s) = nextread s + 1"
  "nextconsume (issued b s) = nextconsume s"
  "nreadblocks (issued b s) = nreadblocks s"
  "read_buffers (issued b s) = read_buffers s"
  "read_reqs (issued b s) = (read_reqs s)[b := Some (nextread s)]"
  "read_bids (issued b s) = (read_bids s)[b := consume_seq s ! (prefetch_seq s ! nextread s)]"
  "completed (issued b s) = completed s"
  "pref_buffer (issued b s) = (pref_buffer s)[prefetch_seq s ! nextread s := b]"
  "do_after_fetch (issued b s) = do_after_fetch s"
  "length (requests (issued b s)) = Suc (length (requests s))"
  "io_log (issued b s) = io_log s @ [IssueRead (nextread s)]"
  by (simp_all add: issued_def)

lemma issued_old: "i < length (requests s) \<Longrightarrow> requests (issued b s) ! i = requests s ! i"
  by (simp add: issued_def nth_append)

lemma issued_new:
  "requests (issued b s) ! length (requests s) =
     \<lparr>req_buffer = b, req_bid = consume_seq s ! (prefetch_seq s ! nextread s),
      req_handler = \<lparr>switch_ix = prefetch_seq s ! nextread s,
                     on_complete = do_after_fetch s\<rparr>,
      req_done = False\<rparr>"
  by (simp add: issued_def nth_append)

lemma inv_issued:
  assumes "inv s" and "b < nreadblocks s" and "nextread s < seq_length s"
    and "read_reqs s ! b = None"
  shows "inv (issued b s)"
proof -
  have ish: "inv_shape s" and ir: "inv_reqs s" and idn: "inv_done s" and io: "inv_own s"
    and il: "inv_log s"
    using assms(1) by (simp_all add: inv_def)
  note sh = inv_shapeD [OF ish]
  let ?r = "nextread s"
  let ?p = "prefetch_seq s ! ?r"
  let ?s' = "issued b s"
  have p: "?p < seq_length s" using sh(4) assms(3) by simp
  have len: "length (requests s) = ?r" using sh by simp
  have fresh: "?p \<notin> set (take ?r (prefetch_seq s))"
    using sched_in_take [OF ish assms(3), of ?r] by simp
  have other: "?p \<noteq> prefetch_seq s ! i" if "i < ?r" for i
    using sched_inj [OF ish _ assms(3), of i] that assms(3) by auto
  have old: "requests ?s' ! i = requests s ! i" if "i < ?r" for i
    using that len by (simp add: issued_old)
  have new: "requests ?s' ! ?r =
      \<lparr>req_buffer = b, req_bid = consume_seq s ! ?p,
       req_handler = \<lparr>switch_ix = ?p, on_complete = do_after_fetch s\<rparr>, req_done = False\<rparr>"
    using issued_new [of b s] len by simp
  have slot_ne: "req_buffer (requests s ! i) \<noteq> b" if "i < ?r" "\<not> req_done (requests s ! i)" for i
  proof
    assume "req_buffer (requests s ! i) = b"
    moreover have "read_reqs s ! req_buffer (requests s ! i) = Some i"
      using io [unfolded inv_own_def, THEN conjunct1, rule_format, of i] that len by simp
    ultimately show False using assms(4) by simp
  qed
  have 1: "inv_shape ?s'"
    using ish assms(3) by (simp add: inv_shape_def)
  have 2: "inv_reqs ?s'"
    unfolding inv_reqs_def
  proof (intro allI impI)
    fix i assume "i < length (requests ?s')"
    then have "i < ?r \<or> i = ?r" using len by auto
    then show "switch_ix (req_handler (requests ?s' ! i)) = prefetch_seq ?s' ! i
        \<and> on_complete (req_handler (requests ?s' ! i)) = do_after_fetch ?s'
        \<and> req_bid (requests ?s' ! i) = consume_seq ?s' ! (prefetch_seq ?s' ! i)
        \<and> req_buffer (requests ?s' ! i) = pref_buffer ?s' ! (prefetch_seq ?s' ! i)
        \<and> req_buffer (requests ?s' ! i) < nreadblocks ?s'"
    proof
      assume i: "i < ?r"
      have "switch_ix (req_handler (requests s ! i)) = prefetch_seq s ! i
        \<and> on_complete (req_handler (requests s ! i)) = do_after_fetch s
        \<and> req_bid (requests s ! i) = consume_seq s ! (prefetch_seq s ! i)
        \<and> req_buffer (requests s ! i) = pref_buffer s ! (prefetch_seq s ! i)
        \<and> req_buffer (requests s ! i) < nreadblocks s"
        using ir [unfolded inv_reqs_def, rule_format, of i] i len by simp
      then show ?thesis
        using other [OF i] by (simp add: old [OF i])
    next
      assume i: "i = ?r"
      show ?thesis
        unfolding i new using p sh(6) assms(2) by simp
    qed
  qed
  have 3: "inv_done ?s'"
    unfolding inv_done_def
  proof (intro conjI allI impI)
    fix i assume "i < length (requests ?s')"
    then have "i < ?r \<or> i = ?r" using len by auto
    then show "req_done (requests ?s' ! i) = completed ?s' ! (prefetch_seq ?s' ! i)"
    proof
      assume i: "i < ?r"
      then show ?thesis
        using idn [unfolded inv_done_def, THEN conjunct1, rule_format, of i] len
        by (simp add: old)
    next
      assume i: "i = ?r"
      have "\<not> completed s ! ?p"
        using idn [unfolded inv_done_def, THEN conjunct2, rule_format, of ?p] p fresh by simp
      then show ?thesis unfolding i new by simp
    qed
  next
    fix q assume q: "q < seq_length ?s'" "q \<notin> set (take (nextread ?s') (prefetch_seq ?s'))"
    have "set (take ?r (prefetch_seq s)) \<subseteq> set (take (Suc ?r) (prefetch_seq s))"
      by (rule set_take_subset_set_take) simp
    then have "q \<notin> set (take ?r (prefetch_seq s))" using q(2) by auto
    then show "\<not> completed ?s' ! q"
      using idn [unfolded inv_done_def, THEN conjunct2, rule_format, of q] q(1) by simp
  qed
  have lrr: "length (read_reqs s) = nreadblocks s" using sh by simp
  have 4: "inv_own ?s'"
    unfolding inv_own_def
  proof (intro conjI allI impI)
    fix i assume a: "i < length (requests ?s')" "\<not> req_done (requests ?s' ! i)"
    then have "i < ?r \<or> i = ?r" using len by auto
    then show "read_reqs ?s' ! req_buffer (requests ?s' ! i) = Some i"
    proof
      assume i: "i < ?r"
      then have nd: "\<not> req_done (requests s ! i)" using a(2) by (simp add: old)
      have "read_reqs s ! req_buffer (requests s ! i) = Some i"
        using io [unfolded inv_own_def, THEN conjunct1, rule_format, of i] i nd len by simp
      then show ?thesis
        using slot_ne [OF i nd] by (simp add: old [OF i])
    next
      assume i: "i = ?r"
      show ?thesis unfolding i new using assms(2) lrr by simp
    qed
  next
    fix k rid assume a: "k < nreadblocks ?s'" "read_reqs ?s' ! k = Some rid"
    have "rid < length (requests ?s') \<and> req_buffer (requests ?s' ! rid) = k"
    proof (cases "k = b")
      case True
      then have "rid = ?r" using a assms(2) lrr by simp
      then show ?thesis using True len new by simp
    next
      case False
      then have "read_reqs s ! k = Some rid" using a by simp
      then have "rid < length (requests s) \<and> req_buffer (requests s ! rid) = k"
        using io [unfolded inv_own_def, THEN conjunct2, THEN conjunct1, rule_format, of k rid] a(1)
        by simp
      then show ?thesis using len by (simp add: issued_old)
    qed
    then show "rid < length (requests ?s')" and "req_buffer (requests ?s' ! rid) = k"
      by simp_all
  next
    fix i assume a: "i < length (requests ?s')"
      "req_done (requests ?s' ! i) \<and> read_reqs ?s' ! req_buffer (requests ?s' ! i) = Some i"
    have "i \<noteq> ?r" using a(2) new by auto
    then have i: "i < ?r" using a(1) len by simp
    have ne: "req_buffer (requests s ! i) \<noteq> b"
    proof
      assume "req_buffer (requests s ! i) = b"
      then have "read_reqs ?s' ! req_buffer (requests ?s' ! i) = Some ?r"
        using assms(2) lrr by (simp add: old [OF i])
      then show False using a(2) i by simp
    qed
    have "req_done (requests s ! i) \<and> read_reqs s ! req_buffer (requests s ! i) = Some i"
      using a(2) ne by (simp add: old [OF i])
    then have "read_buffers s ! req_buffer (requests s ! i) = Some (req_bid (requests s ! i))"
      using io [unfolded inv_own_def, THEN conjunct2, THEN conjunct2, rule_format, of i] i len
      by simp
    then show "read_buffers ?s' ! req_buffer (requests ?s' ! i)
        = Some (req_bid (requests ?s' ! i))"
      by (simp add: old [OF i])
  qed
  have S: "set (in_flight (io_log s))
      = {i. i < length (requests s) \<and> \<not> req_done (requests s ! i)}"
    and d: "distinct (in_flight (io_log s))"
    using il unfolding inv_log_def by simp_all
  have room: "length (in_flight (io_log s)) < nreadblocks s"
    by (rule in_flight_room [OF assms(1,2,4)])
  have fl: "in_flight (io_log ?s') = ?r # in_flight (io_log s)"
    by (simp add: in_flight_append)
  have 5: "inv_log ?s'"
    unfolding inv_log_def
  proof (intro conjI)
    show "distinct (in_flight (io_log ?s'))"
      unfolding fl using d S len by simp
    show "set (in_flight (io_log ?s'))
        = {i. i < length (requests ?s') \<and> \<not> req_done (requests ?s' ! i)}"
    proof (rule set_eqI)
      fix i
      show "i \<in> set (in_flight (io_log ?s'))
          \<longleftrightarrow> i \<in> {i. i < length (requests ?s') \<and> \<not> req_done (requests ?s' ! i)}"
      proof (cases "i < ?r")
        case True
        then show ?thesis unfolding fl using S len by (simp add: old [OF True])
      next
        case False
        then show ?thesis unfolding fl using S len new by (cases "i = ?r") auto
      qed
    qed
    show "within (nreadblocks ?s') [] (io_log ?s')"
      using il room
      by (simp add: inv_log_def within_append in_flight_def [symmetric])
    show "\<forall>p. UserCallback p \<in> set (io_log ?s') \<longrightarrow> p < seq_length ?s' \<and> completed ?s' ! p"
      using il by (simp add: inv_log_def)
    show "\<forall>p. count_list (io_log ?s') (UserCallback p) \<le> 1"
      using il by (simp add: inv_log_def)
    show "do_after_fetch ?s' \<longrightarrow>
        (\<forall>p<seq_length ?s'. completed ?s' ! p \<longrightarrow> UserCallback p \<in> set (io_log ?s'))
        \<and> callbacks_first (io_log ?s')"
    proof (intro impI conjI)
      assume "do_after_fetch ?s'"
      then have c: "(\<forall>p<seq_length s. completed s ! p \<longrightarrow> UserCallback p \<in> set (io_log s))"
        "callbacks_first (io_log s)"
        using il by (simp_all add: inv_log_def)
      show "\<forall>p<seq_length ?s'. completed ?s' ! p \<longrightarrow> UserCallback p \<in> set (io_log ?s')"
        using c(1) by simp
      show "callbacks_first (io_log ?s')"
        using callbacks_first_append [OF c(2), of "[IssueRead ?r]"] by simp
    qed
  qed
  show ?thesis
    unfolding inv_def using 1 2 3 4 5 by simp
qed

subsection \<open>The constructor\<close>

lemma update_first_fresh:
  "i < k \<Longrightarrow> (map f [0..<i] @ replicate (k - i) d)[i := f i]
     = map f [0..<Suc i] @ replicate (k - Suc i) d"
proof -
  assume "i < k"
  then obtain m where m: "k - i = Suc m" "k - Suc i = m"
    by (cases "k - i") auto
  show ?thesis
    by (simp add: m list_update_append)
qed

lemma nth_first_fresh:
  "i < k \<Longrightarrow> (map f [0..<i] @ replicate (k - i) d)[i := x] ! i = x"
  by (simp add: nth_list_update)

lemma ctor_body_state:
  assumes "i < min b (length cons)"
  shows "ctor_body i (ctor_state cons sched b cb i) = ctor_state cons sched b cb (Suc i)"
  using assms update_first_fresh [of i "min b (length cons)" Some None]
    update_first_fresh [of i "min b (length cons)" "\<lambda>j. cons ! (sched ! j)" "BID 0"]
    nth_first_fresh [of i "min b (length cons)" "\<lambda>j. cons ! (sched ! j)" "BID 0"]
  by (simp add: ctor_body_def ctor_state_def block_read_def first_request_def Let_def nth_append)

lemma ctor_state_fields [simp]:
  "consume_seq (ctor_state cons sched b cb i) = cons"
  "seq_length (ctor_state cons sched b cb i) = length cons"
  "prefetch_seq (ctor_state cons sched b cb i) = sched"
  "nextread (ctor_state cons sched b cb i) = min b (length cons)"
  "nextconsume (ctor_state cons sched b cb i) = 0"
  "nreadblocks (ctor_state cons sched b cb i) = min b (length cons)"
  "read_buffers (ctor_state cons sched b cb i) = replicate (min b (length cons)) None"
  "completed (ctor_state cons sched b cb i) = replicate (length cons) False"
  "do_after_fetch (ctor_state cons sched b cb i) = cb"
  "requests (ctor_state cons sched b cb i) = map (first_request cons sched cb) [0..<i]"
  "io_log (ctor_state cons sched b cb i) = map IssueRead [0..<i]"
  "pref_buffer (ctor_state cons sched b cb i)
     = fold (\<lambda>j m. m[sched ! j := j]) [0..<i] (replicate (length cons) unassigned)"
  by (simp_all add: ctor_state_def Let_def)

lemma ctor_state_final [simp]:
  "read_reqs (ctor_state cons sched b cb (min b (length cons)))
     = map Some [0..<min b (length cons)]"
  "read_bids (ctor_state cons sched b cb (min b (length cons)))
     = map (\<lambda>j. cons ! (sched ! j)) [0..<min b (length cons)]"
  by (simp_all add: ctor_state_def Let_def)

lemma ctor_loop_state:
  assumes "min b (length cons) \<le> length sched"
    and "\<forall>j < min b (length cons). sched ! j < length cons"
  shows "i \<le> min b (length cons) \<Longrightarrow> d = min b (length cons) - i \<Longrightarrow>
    ctor_loop i (ctor_state cons sched b cb i)
      = Inr (ctor_state cons sched b cb (min b (length cons)))"
proof (induction d arbitrary: i)
  case 0
  then have "i = min b (length cons)" by arith
  then show ?case
    by (subst ctor_loop.simps) simp
next
  case (Suc d)
  have i: "i < min b (length cons)" using Suc.prems by arith
  have d: "d = min b (length cons) - Suc i" using Suc.prems by arith
  have "ctor_loop (Suc i) (ctor_state cons sched b cb (Suc i))
      = Inr (ctor_state cons sched b cb (min b (length cons)))"
    by (rule Suc.IH [OF _ d]) (use i in simp)
  moreover have "\<not> length sched \<le> i" "sched ! i < length cons"
    using i assms by auto
  ultimately show ?case
    using i ctor_body_state [OF i, of sched cb]
    by (subst ctor_loop.simps) simp
qed

lemma new_block_prefetcher_state:
  assumes "0 < length cons" and "0 < b"
    and "min b (length cons) \<le> length sched"
    and "\<forall>j < min b (length cons). sched ! j < length cons"
  shows "new_block_prefetcher cons sched b cb
    = Inr (ctor_state cons sched b cb (min b (length cons)))"
proof -
  have "new_block_prefetcher cons sched b cb = ctor_loop 0 (ctor_state cons sched b cb 0)"
    using assms(1,2) by (simp add: new_block_prefetcher_def ctor_state_def Let_def)
  then show ?thesis
    using ctor_loop_state [OF assms(3,4), of 0 _ cb] by simp
qed

lemma pref_fold:
  assumes "distinct sched" and "\<forall>p \<in> set sched. p < n"
  shows "i \<le> length sched \<Longrightarrow>
    length (fold (\<lambda>j m. m[sched ! j := j]) [0..<i] (replicate n u)) = n
    \<and> (\<forall>j<i. fold (\<lambda>j m. m[sched ! j := j]) [0..<i] (replicate n u) ! (sched ! j) = j)
    \<and> (\<forall>p<n. p \<notin> set (take i sched) \<longrightarrow>
          fold (\<lambda>j m. m[sched ! j := j]) [0..<i] (replicate n u) ! p = u)"
proof (induction i)
  case 0
  then show ?case by simp
next
  case (Suc i)
  let ?m = "fold (\<lambda>j m. m[sched ! j := j]) [0..<i] (replicate n u)"
  have IH: "length ?m = n" "\<forall>j<i. ?m ! (sched ! j) = j"
    "\<forall>p<n. p \<notin> set (take i sched) \<longrightarrow> ?m ! p = u"
    using Suc by simp_all
  have i: "i < length sched" using Suc.prems by simp
  then have pi: "sched ! i < n" using assms(2) by simp
  have f: "fold (\<lambda>j m. m[sched ! j := j]) [0..<Suc i] (replicate n u) = ?m[sched ! i := i]"
    by simp
  have ne: "sched ! i \<noteq> sched ! j" if "j < i" for j
    using that i assms(1) by (simp add: nth_eq_iff_index_eq)
  show ?case
    unfolding f
  proof (intro conjI allI impI)
    show "length (?m[sched ! i := i]) = n" using IH(1) by simp
  next
    fix j assume "j < Suc i"
    then show "?m[sched ! i := i] ! (sched ! j) = j"
      using IH(1,2) pi ne [of j] by (cases "j = i") simp_all
  next
    fix p assume p: "p < n" "p \<notin> set (take (Suc i) sched)"
    then have "p \<noteq> sched ! i" "p \<notin> set (take i sched)"
      using i by (auto simp: take_Suc_conv_app_nth)
    then show "?m[sched ! i := i] ! p = u"
      using IH(3) p(1) by simp
  qed
qed

lemma in_flight_issues: "fold track (map IssueRead xs) cur = rev xs @ cur"
  by (induction xs arbitrary: cur) simp_all

lemma within_issues:
  "length cur + length xs \<le> k \<Longrightarrow> within k cur (map IssueRead xs)"
  by (induction xs arbitrary: cur) simp_all

lemma callbacks_first_issues: "callbacks_first (map IssueRead xs)"
  using callbacks_first_append [of "[]" "map IssueRead xs"]
  by (auto simp: callbacks_first_def)

lemma valid_scheduleD:
  assumes "valid_schedule n sched"
  shows "length sched = n" and "distinct sched" and "\<forall>p \<in> set sched. p < n"
  using assms by (simp_all add: valid_schedule_def list_all_iff)

lemma inv_ctor_state:
  assumes "0 < length cons" and "0 < b" and "valid_schedule (length cons) sched"
  shows "inv (ctor_state cons sched b cb (min b (length cons)))"
proof -
  let ?k = "min b (length cons)"
  let ?s = "ctor_state cons sched b cb ?k"
  note v = valid_scheduleD [OF assms(3)]
  have k: "0 < ?k" "?k \<le> length cons" "?k \<le> length sched"
    using assms(1,2) v(1) by simp_all
  note pf = pref_fold [OF v(2,3) k(3), of unassigned]
  have req: "requests ?s ! i = first_request cons sched cb i" if "i < ?k" for i
    using that by simp
  have 1: "inv_shape ?s"
    using assms k pf by (simp add: inv_shape_def)
  have 2: "inv_reqs ?s"
    unfolding inv_reqs_def
  proof (intro allI impI)
    fix i assume "i < length (requests ?s)"
    then have i: "i < ?k" by simp
    show "switch_ix (req_handler (requests ?s ! i)) = prefetch_seq ?s ! i
        \<and> on_complete (req_handler (requests ?s ! i)) = do_after_fetch ?s
        \<and> req_bid (requests ?s ! i) = consume_seq ?s ! (prefetch_seq ?s ! i)
        \<and> req_buffer (requests ?s ! i) = pref_buffer ?s ! (prefetch_seq ?s ! i)
        \<and> req_buffer (requests ?s ! i) < nreadblocks ?s"
      unfolding req [OF i] using pf i by (simp add: first_request_def)
  qed
  have 3: "inv_done ?s"
    unfolding inv_done_def
  proof (intro conjI allI impI)
    fix i assume "i < length (requests ?s)"
    then have i: "i < ?k" by simp
    then have "sched ! i < length cons" using v k by simp
    then show "req_done (requests ?s ! i) = completed ?s ! (prefetch_seq ?s ! i)"
      unfolding req [OF i] by (simp add: first_request_def)
  next
    fix p assume "p < seq_length ?s"
    then show "\<not> completed ?s ! p" by simp
  qed
  have 4: "inv_own ?s"
    unfolding inv_own_def
  proof (intro conjI allI impI)
    fix i assume "i < length (requests ?s)"
    then have i: "i < ?k" by simp
    show "read_reqs ?s ! req_buffer (requests ?s ! i) = Some i"
      unfolding req [OF i] using i by (simp add: first_request_def)
  next
    fix j rid assume "j < nreadblocks ?s" "read_reqs ?s ! j = Some rid"
    then have "j < ?k" "rid = j" by simp_all
    then show "rid < length (requests ?s)" and "req_buffer (requests ?s ! rid) = j"
      by (simp_all add: first_request_def)
  next
    fix i assume "i < length (requests ?s)"
      "req_done (requests ?s ! i) \<and> read_reqs ?s ! req_buffer (requests ?s ! i) = Some i"
    then have "i < ?k" "req_done (requests ?s ! i)" by simp_all
    then have False by (simp add: first_request_def)
    then show "read_buffers ?s ! req_buffer (requests ?s ! i) = Some (req_bid (requests ?s ! i))"
      ..
  qed
  have fl: "in_flight (io_log ?s) = rev [0..<?k]"
    by (simp add: in_flight_def in_flight_issues)
  have 5: "inv_log ?s"
    unfolding inv_log_def
  proof (intro conjI)
    show "distinct (in_flight (io_log ?s))" unfolding fl by simp
    show "set (in_flight (io_log ?s))
        = {i. i < length (requests ?s) \<and> \<not> req_done (requests ?s ! i)}"
      unfolding fl by (auto simp: first_request_def)
    show "within (nreadblocks ?s) [] (io_log ?s)"
      by (simp add: within_issues)
    show "\<forall>p. UserCallback p \<in> set (io_log ?s) \<longrightarrow> p < seq_length ?s \<and> completed ?s ! p"
      by auto
    show "\<forall>p. count_list (io_log ?s) (UserCallback p) \<le> 1"
    proof
      fix p
      have "UserCallback p \<notin> set (io_log ?s)" by auto
      then have "count_list (io_log ?s) (UserCallback p) = 0"
        by (rule count_notin)
      then show "count_list (io_log ?s) (UserCallback p) \<le> 1" by simp
    qed
    show "do_after_fetch ?s \<longrightarrow>
        (\<forall>p<seq_length ?s. completed ?s ! p \<longrightarrow> UserCallback p \<in> set (io_log ?s))
        \<and> callbacks_first (io_log ?s)"
      by (simp add: callbacks_first_issues)
  qed
  show ?thesis
    unfolding inv_def using 1 2 3 4 5 by simp
qed

lemma new_block_prefetcher_valid:
  assumes "0 < length cons" and "0 < b" and "valid_schedule (length cons) sched"
  shows "new_block_prefetcher cons sched b cb
    = Inr (ctor_state cons sched b cb (min b (length cons)))"
proof (rule new_block_prefetcher_state [OF assms(1,2)])
  note v = valid_scheduleD [OF assms(3)]
  show "min b (length cons) \<le> length sched" using v by simp
  show "\<forall>j<min b (length cons). sched ! j < length cons" using v by simp
qed

subsection \<open>The invariant along a run\<close>

lemma same_setup_refl [simp]: "same_setup s s"
  by (simp add: same_setup_def)

lemma same_setup_trans: "same_setup s s' \<Longrightarrow> same_setup s' s'' \<Longrightarrow> same_setup s s''"
  by (simp add: same_setup_def)

lemma io_progress_setup: "io_progress s s' \<Longrightarrow> same_setup s s'"
  by (simp add: io_progress_def same_setup_def)

lemma retire_setup: "same_setup s (retire b s)"
proof -
  obtain s1 where "io_progress s s1" "retire b s = s1\<lparr>read_reqs := (read_reqs s)[b := None]\<rparr>"
    using retire_frame by blast
  then show ?thesis
    by (simp add: io_progress_def same_setup_def)
qed

lemma reissue_cases:
  assumes "inv s" and "b < nreadblocks s"
  shows "reissue b s = Inr (if nextread s < seq_length s then issued b s else s)"
  using reissue_more [OF assms] reissue_none [of s b] by simp

lemma deliver_inv:
  assumes "inv s" and "deliver b s = Inr (f, b', s')"
  shows "inv s' \<and> same_setup s s' \<and> f = (nextconsume s < seq_length s)"
proof (cases "nextconsume s < seq_length s")
  case False
  then show ?thesis using assms by (simp add: deliver_def)
next
  case True
  then have w: "wait (nextconsume s) (s\<lparr>nextconsume := nextconsume s + 1\<rparr>) = Inr (b', s')"
    and f: "f"
    using assms(2) by (auto simp: deliver_def split: sum.splits)
  have "inv (s\<lparr>nextconsume := nextconsume s + 1\<rparr>)" using assms(1) by simp
  from wait_inv [OF this w] have "inv s'"
    and "io_progress (s\<lparr>nextconsume := nextconsume s + 1\<rparr>) s'"
    by simp_all
  then show ?thesis
    using True f by (simp add: io_progress_def same_setup_def)
qed

lemma block_consumed_inv:
  assumes "inv s" and "block_consumed b s = Inr (f, b', s')"
  shows "inv s' \<and> same_setup s s' \<and> b < nreadblocks s"
proof -
  have b: "b < nreadblocks s"
    using assms(2) by (auto simp: block_consumed_parts split: if_splits)
  let ?s2 = "retire b s"
  have i2: "inv ?s2" by (rule inv_retire [OF assms(1) b])
  have k2: "same_setup s ?s2" by (rule retire_setup)
  then have b2: "b < nreadblocks ?s2" using b by (simp add: same_setup_def)
  have "length (read_reqs s) = nreadblocks s"
    using assms(1) by (simp add: inv_def inv_shapeD)
  then have none: "read_reqs ?s2 ! b = None"
    using b by (simp add: retire_handles)
  let ?s7 = "if nextread ?s2 < seq_length ?s2 then issued b ?s2 else ?s2"
  have r: "reissue b ?s2 = Inr ?s7" by (rule reissue_cases [OF i2 b2])
  have i7: "inv ?s7" using i2 inv_issued [OF i2 b2 _ none] by simp
  have k7: "same_setup ?s2 ?s7" by (simp add: same_setup_def)
  have d: "deliver b ?s7 = Inr (f, b', s')"
    using assms(2) b r by (simp add: block_consumed_parts)
  from deliver_inv [OF i7 d] have "inv s'" "same_setup ?s7 s'" by simp_all
  then show ?thesis
    using b same_setup_trans [OF k2 same_setup_trans [OF k7]] by blast
qed

lemma pull_block_inv:
  assumes "inv s" and "pull_block s = Inr (b, s')"
  shows "inv s' \<and> same_setup s s'"
proof -
  have "inv (s\<lparr>nextconsume := nextconsume s + 1\<rparr>)" using assms(1) by simp
  from wait_inv [OF this assms(2) [unfolded pull_block_def]]
  show ?thesis by (simp add: io_progress_def same_setup_def)
qed

lemma step_inv:
  assumes "inv (engine c)" and "step x c = Inr c'"
  shows "inv (engine c') \<and> same_setup (engine c) (engine c')"
proof (cases x)
  case PullBlock
  then show ?thesis
    using assms pull_block_inv [of "engine c"]
    by (auto simp: pull_step_def split: sum.splits prod.splits)
next
  case BlockConsumed
  then show ?thesis
    using assms block_consumed_inv [of "engine c"]
    by (auto simp: consumed_step_def split: sum.splits prod.splits option.splits)
next
  case (BlockConsumedAt b)
  then show ?thesis
    using assms block_consumed_inv [of "engine c"]
    by (auto simp: consumed_step_def split: sum.splits prod.splits)
next
  case (IOComplete rid)
  then show ?thesis
    using assms inv_io_complete [of "engine c" rid]
      io_progress_setup [OF io_progress_io_complete, of "engine c" rid]
    by auto
qed

lemma exec_inv:
  "inv (engine c) \<Longrightarrow> exec calls c = Inr c' \<Longrightarrow>
   inv (engine c') \<and> same_setup (engine c) (engine c')"
proof (induction calls arbitrary: c)
  case Nil
  then show ?case by simp
next
  case (Cons x xs)
  from Cons.prems(2) obtain c1 where 1: "step x c = Inr c1" and 2: "exec xs c1 = Inr c'"
    by (auto split: sum.splits)
  from step_inv [OF Cons.prems(1) 1] have "inv (engine c1)" "same_setup (engine c) (engine c1)"
    by simp_all
  then show ?case
    using Cons.IH [OF _ 2] same_setup_trans by blast
qed

lemma run_inv:
  assumes "0 < length cons" and "0 < b" and "valid_schedule (length cons) sched"
    and "run cons sched b cb calls = Inr c"
  shows "inv (engine c)" and "nreadblocks (engine c) = min b (length cons)"
    and "seq_length (engine c) = length cons" and "prefetch_seq (engine c) = sched"
    and "consume_seq (engine c) = cons" and "do_after_fetch (engine c) = cb"
proof -
  let ?s = "ctor_state cons sched b cb (min b (length cons))"
  have e: "exec calls \<lparr>engine = ?s, buffer = None, returned = []\<rparr> = Inr c"
    using assms(4) new_block_prefetcher_valid [OF assms(1-3), of cb] by (simp add: run_def)
  have "inv (engine \<lparr>engine = ?s, buffer = None, returned = []\<rparr>)"
    using inv_ctor_state [OF assms(1-3), of cb] by simp
  from exec_inv [OF this e]
  show "inv (engine c)" and "nreadblocks (engine c) = min b (length cons)"
    and "seq_length (engine c) = length cons" and "prefetch_seq (engine c) = sched"
    and "consume_seq (engine c) = cons" and "do_after_fetch (engine c) = cb"
    by (simp_all add: same_setup_def)
qed

subsection \<open>The destructor\<close>

lemma drain_inv:
  assumes "inv s"
  shows "k \<le> nreadblocks s \<Longrightarrow>
    inv (fold (\<lambda>i s. case read_reqs s ! i of Some rid \<Rightarrow> request_wait rid s | None \<Rightarrow> s)
           [0..<k] s)
    \<and> io_progress s
        (fold (\<lambda>i s. case read_reqs s ! i of Some rid \<Rightarrow> request_wait rid s | None \<Rightarrow> s)
           [0..<k] s)
    \<and> (\<forall>j<k. \<forall>rid. read_reqs s ! j = Some rid \<longrightarrow>
          req_done (requests
            (fold (\<lambda>i s. case read_reqs s ! i of Some rid \<Rightarrow> request_wait rid s | None \<Rightarrow> s)
               [0..<k] s) ! rid))"
proof (induction k)
  case 0
  then show ?case using assms by simp
next
  case (Suc k)
  let ?f = "\<lambda>i s. case read_reqs s ! i of Some rid \<Rightarrow> request_wait rid s | None \<Rightarrow> s"
  let ?s1 = "fold ?f [0..<k] s"
  have IH: "inv ?s1" "io_progress s ?s1"
    "\<forall>j<k. \<forall>rid. read_reqs s ! j = Some rid \<longrightarrow> req_done (requests ?s1 ! rid)"
    using Suc by simp_all
  have s': "fold ?f [0..<Suc k] s = ?f k ?s1" by simp
  have rr: "read_reqs ?s1 = read_reqs s" "nreadblocks ?s1 = nreadblocks s"
    "length (requests ?s1) = length (requests s)"
    using IH(2) by (simp_all add: io_progress_def)
  show ?case
  proof (cases "read_reqs s ! k")
    case None
    then have "?f k ?s1 = ?s1" by (simp add: rr)
    then show ?thesis
      unfolding s' using IH None by (auto simp: less_Suc_eq)
  next
    case (Some rid)
    then have e: "?f k ?s1 = request_wait rid ?s1" by (simp add: rr)
    have io1: "inv_own ?s1" using IH(1) by (simp add: inv_def)
    have "rid < length (requests ?s1)"
      using io1 [unfolded inv_own_def, THEN conjunct2, THEN conjunct1, rule_format, of k rid]
        Some Suc.prems rr by simp
    then have d: "req_done (requests (request_wait rid ?s1) ! rid)"
      by (rule request_wait_done)
    have p: "io_progress s (request_wait rid ?s1)"
      by (rule io_progress_trans [OF IH(2) io_progress_request_wait])
    have "\<forall>j<Suc k. \<forall>r. read_reqs s ! j = Some r \<longrightarrow>
        req_done (requests (request_wait rid ?s1) ! r)"
    proof (intro allI impI)
      fix j r assume j: "j < Suc k" "read_reqs s ! j = Some r"
      show "req_done (requests (request_wait rid ?s1) ! r)"
      proof (cases "j = k")
        case True
        then show ?thesis using j Some d by simp
      next
        case False
        then have "j < k" using j by simp
        then have "req_done (requests ?s1 ! r)"
          using IH(3) [rule_format, of j r] j(2) by simp
        then show ?thesis by (rule request_wait_static(4))
      qed
    qed
    then show ?thesis
      unfolding s' e using inv_request_wait [OF IH(1)] p by simp
  qed
qed

lemma delete_drains:
  assumes "inv s"
  shows "inv (delete_block_prefetcher s)" and "io_progress s (delete_block_prefetcher s)"
    and "in_flight (io_log (delete_block_prefetcher s)) = []"
proof -
  let ?s' = "delete_block_prefetcher s"
  note d = drain_inv [OF assms order_refl, folded delete_block_prefetcher_def]
  show i: "inv ?s'" and p: "io_progress s ?s'" using d by simp_all
  show "in_flight (io_log ?s') = []"
  proof (cases "in_flight (io_log ?s')")
    case Nil
    then show ?thesis .
  next
    case (Cons r rs)
    then have "r \<in> set (in_flight (io_log ?s'))" by simp
    moreover have il: "inv_log ?s'" and io: "inv_own ?s'" and ir: "inv_reqs ?s'"
      using i by (simp_all add: inv_def)
    ultimately have r: "r < length (requests ?s')" "\<not> req_done (requests ?s' ! r)"
      using il [unfolded inv_log_def, THEN conjunct2, THEN conjunct1] by simp_all
    have 1: "read_reqs ?s' ! req_buffer (requests ?s' ! r) = Some r"
      using io [unfolded inv_own_def, THEN conjunct1, rule_format, of r] r by simp
    have 2: "req_buffer (requests ?s' ! r) < nreadblocks ?s'"
      using ir [unfolded inv_reqs_def, rule_format, of r] r by simp
    have "read_reqs s ! req_buffer (requests ?s' ! r) = Some r"
      "req_buffer (requests ?s' ! r) < nreadblocks s"
      using 1 2 p by (simp_all add: io_progress_def)
    then have "req_done (requests ?s' ! r)"
      using d [THEN conjunct2, THEN conjunct2, rule_format, of "req_buffer (requests ?s' ! r)" r]
      by simp
    then show ?thesis using r by simp
  qed
qed

lemma inv_bounded:
  assumes "inv s" and "n \<le> length (io_log s)"
  shows "length (in_flight (take n (io_log s))) \<le> nreadblocks s"
proof -
  have "within (nreadblocks s) [] (io_log s)"
    using assms(1) by (simp add: inv_def inv_log_def)
  from within_prefixes [OF this _ assms(2)] show ?thesis
    by (simp add: in_flight_def)
qed

lemma request_wait_log:
  "\<exists>tl. io_log (request_wait rid s) = io_log s @ ReqWait rid # tl \<and> (\<forall>r. IssueRead r \<notin> set tl)"
proof -
  let ?s1 = "s\<lparr>io_log := io_log s @ [ReqWait rid]\<rparr>"
  obtain evs where "io_log (io_complete rid ?s1) = io_log ?s1 @ evs" "\<forall>r. IssueRead r \<notin> set evs"
    using io_progress_io_complete [of ?s1 rid] unfolding io_progress_def by blast
  then show ?thesis
    by (simp add: request_wait_def)
qed

lemma retire_log:
  "\<exists>evs1. io_log (retire b s) = io_log s @ evs1
     \<and> (case read_reqs s ! b of None \<Rightarrow> evs1 = [] | Some rid \<Rightarrow> \<exists>tl. evs1 = ReqWait rid # tl)
     \<and> (\<forall>r. IssueRead r \<notin> set evs1)"
proof (cases "read_reqs s ! b")
  case None
  then show ?thesis by (simp add: retire_eq)
next
  case (Some rid)
  obtain tl where "io_log (request_wait rid s) = io_log s @ ReqWait rid # tl"
    "\<forall>r. IssueRead r \<notin> set tl"
    using request_wait_log by blast
  then show ?thesis
    using Some by (simp add: retire_eq)
qed

lemma retire_static:
  "nextread (retire b s) = nextread s"
  "nextconsume (retire b s) = nextconsume s"
  "pref_buffer (retire b s) = pref_buffer s"
  "length (requests (retire b s)) = length (requests s)"
  "req_buffer (requests (retire b s) ! i) = req_buffer (requests s ! i)"
proof -
  obtain s1 where "io_progress s s1" "retire b s = s1\<lparr>read_reqs := (read_reqs s)[b := None]\<rparr>"
    using retire_frame by blast
  then show "nextread (retire b s) = nextread s"
    "nextconsume (retire b s) = nextconsume s"
    "pref_buffer (retire b s) = pref_buffer s"
    "length (requests (retire b s)) = length (requests s)"
    "req_buffer (requests (retire b s) ! i) = req_buffer (requests s ! i)"
    by (simp_all add: io_progress_def)
qed

lemma deliver_frame:
  assumes "deliver b s = Inr (f, b', s')"
  shows "\<exists>evs2. io_log s' = io_log s @ evs2 \<and> (\<forall>r. IssueRead r \<notin> set evs2)"
    and "nextread s' = nextread s" and "read_reqs s' = read_reqs s"
    and "pref_buffer s' = pref_buffer s"
    and "length (requests s') = length (requests s)"
    and "req_buffer (requests s' ! i) = req_buffer (requests s ! i)"
    and "req_bid (requests s' ! i) = req_bid (requests s ! i)"
    and "req_handler (requests s' ! i) = req_handler (requests s ! i)"
proof -
  have "io_progress (s\<lparr>nextconsume := nextconsume s'\<rparr>) s'"
  proof (cases "nextconsume s < seq_length s")
    case False
    then show ?thesis using assms by (auto simp: deliver_def)
  next
    case True
    then obtain w: "wait (nextconsume s) (s\<lparr>nextconsume := nextconsume s + 1\<rparr>) = Inr (b', s')"
      using assms by (auto simp: deliver_def split: sum.splits)
    then have p: "nextconsume s < seq_length s"
      by (auto simp: wait_def split: if_splits)
    from w p obtain s1 where
      w1: "wait_for_on (nextconsume s) (s\<lparr>nextconsume := nextconsume s + 1\<rparr>) = Inr s1"
      by (auto simp: wait_def split: sum.splits)
    then have "s' = s1" using w p by (auto simp: wait_def Let_def split: if_splits)
    have pr: "io_progress (s\<lparr>nextconsume := nextconsume s + 1\<rparr>) s'"
    proof (cases "completed s ! nextconsume s")
      case True
      then show ?thesis
        using w1 \<open>s' = s1\<close> by (auto simp: wait_for_on_on io_progress_def)
    next
      case False
      let ?s0 = "s\<lparr>nextconsume := nextconsume s + 1\<rparr>"
      let ?sa = "?s0\<lparr>io_log := io_log ?s0 @ [WaitSignal (nextconsume s)]\<rparr>"
      from w1 False obtain rid where
        "s1 = (io_complete rid ?sa)\<lparr>io_log := io_log (io_complete rid ?sa) @ [Woken (nextconsume s)]\<rparr>"
        by (auto simp: wait_for_on_off Let_def split: option.splits)
      then show ?thesis
        unfolding \<open>s' = s1\<close>
        using io_progress_trans [OF io_progress_log
            io_progress_trans [OF io_progress_io_complete io_progress_log],
            of "WaitSignal (nextconsume s)" "Woken (nextconsume s)" ?s0 rid]
        by simp
    qed
    then have "nextconsume s' = nextconsume s + 1" by (simp add: io_progress_def)
    then show ?thesis using pr by simp
  qed
  then show "\<exists>evs2. io_log s' = io_log s @ evs2 \<and> (\<forall>r. IssueRead r \<notin> set evs2)"
    and "nextread s' = nextread s" and "read_reqs s' = read_reqs s"
    and "pref_buffer s' = pref_buffer s"
    and "length (requests s') = length (requests s)"
    and "req_buffer (requests s' ! i) = req_buffer (requests s ! i)"
    and "req_bid (requests s' ! i) = req_bid (requests s ! i)"
    and "req_handler (requests s' ! i) = req_handler (requests s ! i)"
    by (simp_all add: io_progress_def)
qed

subsection \<open>A caller that passes back the buffer it was handed last\<close>

lemma feasibleD:
  assumes "feasible k sched" and "j < length sched"
  shows "\<exists>i. i < k + j \<and> i < length sched \<and> sched ! i = j"
proof -
  have "j \<in> set (take (k + j) sched)"
    using assms by (simp add: feasible_def list_all_iff)
  then show ?thesis
    by (auto simp: in_set_conv_nth)
qed

lemma in_order_append:
  "in_order cons n (rs @ rs') =
     (in_order cons n rs \<and> in_order cons (n + length (filter is_block rs)) rs')"
proof (induction rs arbitrary: n)
  case Nil
  then show ?case by simp
next
  case (Cons r rs)
  then show ?case by (cases r) auto
qed

lemma in_order_nth:
  "in_order cons n rs \<Longrightarrow> i < length rs \<Longrightarrow>
   (n + i < length cons \<longrightarrow> (\<exists>bf. rs ! i = Block (n + i) bf bf (Some (cons ! (n + i)))))
   \<and> (length cons \<le> n + i \<longrightarrow> rs ! i = NoMore)"
proof (induction rs arbitrary: n i)
  case Nil
  then show ?case by simp
next
  case (Cons r rs)
  show ?case
  proof (cases r)
    case (Block p b m d)
    then have h: "p = n" "n < length cons" "b = m" "d = Some (cons ! n)"
      "in_order cons (Suc n) rs"
      using Cons.prems(1) by simp_all
    show ?thesis
    proof (cases i)
      case 0
      then show ?thesis using Block h by simp
    next
      case (Suc j)
      then show ?thesis
        using Cons.IH [OF h(5), of j] Cons.prems(2) by simp
    qed
  next
    case NoMore
    then have h: "length cons \<le> n" "in_order cons n rs"
      using Cons.prems(1) by simp_all
    show ?thesis
    proof (cases i)
      case 0
      then show ?thesis using NoMore h by simp
    next
      case (Suc j)
      then show ?thesis
        using Cons.IH [OF h(2), of j] Cons.prems(2) h(1) by simp
    qed
  qed
qed

text \<open>Waiting changes nothing but the progress of the I/O layer.\<close>

lemma wait_for_on_progress:
  assumes "wait_for_on p s = Inr s'"
  shows "io_progress s s'"
proof (cases "completed s ! p")
  case True
  then show ?thesis
    using assms by (auto simp: wait_for_on_on io_progress_def)
next
  case False
  let ?sa = "s\<lparr>io_log := io_log s @ [WaitSignal p]\<rparr>"
  from assms False obtain rid where
    "s' = (io_complete rid ?sa)\<lparr>io_log := io_log (io_complete rid ?sa) @ [Woken p]\<rparr>"
    by (auto simp: wait_for_on_off Let_def split: option.splits)
  then show ?thesis
    using io_progress_trans [OF io_progress_log
        io_progress_trans [OF io_progress_io_complete io_progress_log],
        of "WaitSignal p" "Woken p" s rid]
    by simp
qed

lemma wait_progress:
  assumes "wait p s = Inr (b, s')"
  shows "io_progress s s'" and "b = pref_buffer s' ! p" and "b < nreadblocks s'"
    and "p < seq_length s"
proof -
  from assms show p: "p < seq_length s"
    by (auto simp: wait_def split: if_splits)
  from assms p obtain s1 where w: "wait_for_on p s = Inr s1"
    by (auto simp: wait_def split: sum.splits)
  from assms p w have "s' = s1" "b = pref_buffer s1 ! p" "b < nreadblocks s1"
    by (auto simp: wait_def Let_def split: if_splits)
  then show "io_progress s s'" and "b = pref_buffer s' ! p" and "b < nreadblocks s'"
    using wait_for_on_progress [OF w] by simp_all
qed

text \<open>
  Handing out position \<open>n\<close>, whose read has been issued as request \<open>i\<close> and still owns
  its buffer.
\<close>

lemma hand_out:
  assumes "inv s" and "i < nextread s" and "prefetch_seq s ! i = n"
    and "read_reqs s ! req_buffer (requests s ! i) = Some i"
  shows "\<exists>s'. wait n s = Inr (req_buffer (requests s ! i), s')
      \<and> inv s' \<and> io_progress s s'
      \<and> req_done (requests s' ! i)
      \<and> pref_buffer s' ! n = req_buffer (requests s ! i)
      \<and> read_buffers s' ! req_buffer (requests s ! i) = Some (consume_seq s ! n)"
proof -
  obtain b s' where w: "wait n s = Inr (b, s')"
    using wait_returns [OF assms(1-3)] by blast
  note r = wait_inv [OF assms(1) w]
  then have i': "inv s'" and p: "io_progress s s'" and on: "completed s' ! n"
    and b: "b = pref_buffer s' ! n"
    by simp_all
  have ir: "inv_reqs s'" and idn: "inv_done s'" and io: "inv_own s'"
    using i' by (simp_all add: inv_def)
  have len: "length (requests s) = nextread s"
    using assms(1) by (simp add: inv_def inv_shapeD)
  have fr: "prefetch_seq s' = prefetch_seq s" "length (requests s') = length (requests s)"
    "req_buffer (requests s' ! i) = req_buffer (requests s ! i)"
    "read_reqs s' = read_reqs s" "consume_seq s' = consume_seq s"
    using p by (simp_all add: io_progress_def)
  have il: "i < length (requests s')" using assms(2) len fr by simp
  have slot: "req_buffer (requests s' ! i) = pref_buffer s' ! n"
    and bid: "req_bid (requests s' ! i) = consume_seq s' ! n"
    using ir [unfolded inv_reqs_def, rule_format, OF il] assms(3) fr by simp_all
  have dn: "req_done (requests s' ! i)"
    using idn [unfolded inv_done_def, THEN conjunct1, rule_format, OF il] on assms(3) fr by simp
  have "read_buffers s' ! req_buffer (requests s' ! i) = Some (req_bid (requests s' ! i))"
    using io [unfolded inv_own_def, THEN conjunct2, THEN conjunct2, rule_format, OF il]
      dn assms(4) fr by simp
  then have data: "read_buffers s' ! req_buffer (requests s ! i) = Some (consume_seq s ! n)"
    using bid fr by simp
  have "b = req_buffer (requests s ! i)" using b slot fr by simp
  then show ?thesis
    using w i' p dn data slot fr by auto
qed

lemma inv_heldD:
  assumes "inv_held c"
  shows "nextread (engine c)
      = min (nreadblocks (engine c) + (nextconsume (engine c) - 1)) (seq_length (engine c))"
    and "nextconsume (engine c) \<le> seq_length (engine c)"
    and "\<And>i. i < length (requests (engine c)) \<Longrightarrow>
           nextconsume (engine c) \<le> prefetch_seq (engine c) ! i + 1 \<Longrightarrow>
           read_reqs (engine c) ! req_buffer (requests (engine c) ! i) = Some i"
    and "0 < nextconsume (engine c) \<Longrightarrow>
           \<exists>i < length (requests (engine c)).
             prefetch_seq (engine c) ! i + 1 = nextconsume (engine c)
             \<and> req_done (requests (engine c) ! i)
             \<and> buffer c = Some (req_buffer (requests (engine c) ! i))"
  using assms unfolding inv_held_def Let_def by blast+

lemma inv_heldI:
  assumes "nextread (engine c)
      = min (nreadblocks (engine c) + (nextconsume (engine c) - 1)) (seq_length (engine c))"
    and "nextconsume (engine c) \<le> seq_length (engine c)"
    and "\<And>i. i < length (requests (engine c)) \<Longrightarrow>
           nextconsume (engine c) \<le> prefetch_seq (engine c) ! i + 1 \<Longrightarrow>
           read_reqs (engine c) ! req_buffer (requests (engine c) ! i) = Some i"
    and "\<exists>i < length (requests (engine c)).
             prefetch_seq (engine c) ! i + 1 = nextconsume (engine c)
             \<and> req_done (requests (engine c) ! i)
             \<and> buffer c = Some (req_buffer (requests (engine c) ! i))"
  shows "inv_held c"
  using assms unfolding inv_held_def Let_def by blast

lemma held_progress:
  assumes "inv_held c" and "io_progress (engine c) (engine c')" and "buffer c' = buffer c"
  shows "inv_held c'"
proof -
  note h = inv_heldD [OF assms(1)]
  have fr: "nextread (engine c') = nextread (engine c)"
    "nextconsume (engine c') = nextconsume (engine c)"
    "nreadblocks (engine c') = nreadblocks (engine c)"
    "seq_length (engine c') = seq_length (engine c)"
    "prefetch_seq (engine c') = prefetch_seq (engine c)"
    "read_reqs (engine c') = read_reqs (engine c)"
    "length (requests (engine c')) = length (requests (engine c))"
    and st: "\<And>i. req_buffer (requests (engine c') ! i) = req_buffer (requests (engine c) ! i)"
    and dn: "\<And>i. req_done (requests (engine c) ! i) \<Longrightarrow> req_done (requests (engine c') ! i)"
    using assms(2) unfolding io_progress_def by simp_all
  show ?thesis
    unfolding inv_held_def Let_def fr st assms(3)
  proof (intro conjI allI impI)
    show "nextread (engine c)
      = min (nreadblocks (engine c) + (nextconsume (engine c) - 1)) (seq_length (engine c))"
      by (rule h(1))
    show "nextconsume (engine c) \<le> seq_length (engine c)" by (rule h(2))
  next
    fix i assume "i < length (requests (engine c))"
      "nextconsume (engine c) \<le> prefetch_seq (engine c) ! i + 1"
    then show "read_reqs (engine c) ! req_buffer (requests (engine c) ! i) = Some i"
      by (rule h(3))
  next
    assume "0 < nextconsume (engine c)"
    from h(4) [OF this] obtain i where "i < length (requests (engine c))"
      "prefetch_seq (engine c) ! i + 1 = nextconsume (engine c)"
      "req_done (requests (engine c) ! i)"
      "buffer c = Some (req_buffer (requests (engine c) ! i))"
      by blast
    then show "\<exists>i<length (requests (engine c)).
        prefetch_seq (engine c) ! i + 1 = nextconsume (engine c)
        \<and> req_done (requests (engine c') ! i)
        \<and> buffer c = Some (req_buffer (requests (engine c) ! i))"
      using dn by blast
  qed
qed

lemma exhausted_progress:
  assumes "inv_exhausted c" and "io_progress (engine c) (engine c')" and "buffer c' = buffer c"
  shows "inv_exhausted c'"
  using assms unfolding inv_exhausted_def Let_def io_progress_def by simp

lemma disciplined_io:
  assumes "disciplined cons sched k c"
  shows "disciplined cons sched k (c\<lparr>engine := io_complete rid (engine c)\<rparr>)"
proof -
  let ?c' = "c\<lparr>engine := io_complete rid (engine c)\<rparr>"
  have p: "io_progress (engine c) (engine ?c')"
    using io_progress_io_complete by simp
  have b: "buffer ?c' = buffer c" by simp
  have "inv_held ?c' \<or> inv_exhausted ?c'"
    using assms held_progress [OF _ p b] exhausted_progress [OF _ p b]
    unfolding disciplined_def by blast
  then show ?thesis
    using assms inv_io_complete [of "engine c" rid]
    unfolding disciplined_def by simp
qed

lemma disciplined_pull:
  assumes "disciplined cons sched k c" and "nextconsume (engine c) = 0"
    and "feasible k sched"
  shows "\<exists>c'. pull_step c = Inr c' \<and> disciplined cons sched k c'
      \<and> 0 < nextconsume (engine c')
      \<and> length (returned c') = Suc (length (returned c))"
proof -
  let ?s = "engine c"
  have i: "inv ?s" and su: "consume_seq ?s = cons" "prefetch_seq ?s = sched"
    "nreadblocks ?s = k" "seq_length ?s = length cons"
    and ph: "inv_held c \<or> inv_exhausted c"
    and io: "in_order cons 0 (returned c)"
    and bl: "length (filter is_block (returned c)) = nextconsume ?s"
    using assms(1) unfolding disciplined_def by simp_all
  note sh = inv_shapeD [OF i [unfolded inv_def, THEN conjunct1]]
  have n: "0 < length cons" using sh(9,10) su by auto
  have n1: "Suc 0 \<le> length cons" using n by arith
  have "\<not> inv_exhausted c"
    using assms(2) n su unfolding inv_exhausted_def Let_def by simp
  then have held: "inv_held c" using ph by blast
  note h = inv_heldD [OF held]
  have nr: "nextread ?s = k"
    using h(1) assms(2) sh(10) su by simp
  have ls: "length sched = length cons" using sh(2) su by simp
  then have "0 < length sched" using n by simp
  from feasibleD [OF assms(3) this]
  obtain j where j0: "j < k + 0" and j12: "j < length sched" "sched ! j = 0"
    by blast
  have j: "j < k" "j < length sched" "sched ! j = 0"
    using j0 j12 by simp_all
  have jl: "j < length (requests ?s)" using j nr sh(11) by simp
  have own: "read_reqs ?s ! req_buffer (requests ?s ! j) = Some j"
    using h(3) [OF jl] assms(2) by simp
  let ?s0 = "?s\<lparr>nextconsume := nextconsume ?s + 1\<rparr>"
  let ?b = "req_buffer (requests ?s ! j)"
  have "\<exists>s'. wait 0 ?s0 = Inr (req_buffer (requests ?s0 ! j), s')
      \<and> inv s' \<and> io_progress ?s0 s'
      \<and> req_done (requests s' ! j)
      \<and> pref_buffer s' ! 0 = req_buffer (requests ?s0 ! j)
      \<and> read_buffers s' ! req_buffer (requests ?s0 ! j) = Some (consume_seq ?s0 ! 0)"
    by (rule hand_out) (use i j nr su own in simp_all)
  then obtain s' where w: "wait 0 ?s0 = Inr (?b, s')"
    and i': "inv s'" and p: "io_progress ?s0 s'" and dn: "req_done (requests s' ! j)"
    and pb: "pref_buffer s' ! 0 = ?b" and data: "read_buffers s' ! ?b = Some (cons ! 0)"
    using su by auto
  let ?c' = "c\<lparr>engine := s', buffer := Some ?b,
      returned := returned c @ [Block 0 ?b ?b (Some (cons ! 0))]\<rparr>"
  have step: "pull_step c = Inr ?c'"
    using w assms(2) pb data by (simp add: pull_step_def pull_block_def)
  have fr: "nextread s' = nextread ?s" "nextconsume s' = 1"
    "nreadblocks s' = k" "seq_length s' = length cons"
    "prefetch_seq s' = sched" "consume_seq s' = cons"
    "read_reqs s' = read_reqs ?s"
    "length (requests s') = length (requests ?s)"
    and st: "\<And>i. req_buffer (requests s' ! i) = req_buffer (requests ?s ! i)"
    using p assms(2) su unfolding io_progress_def by simp_all
  have held': "inv_held ?c'"
  proof (rule inv_heldI)
    show "nextread (engine ?c')
        = min (nreadblocks (engine ?c') + (nextconsume (engine ?c') - 1)) (seq_length (engine ?c'))"
      using fr nr sh(10) su by simp
    show "nextconsume (engine ?c') \<le> seq_length (engine ?c')"
      using fr n1 by simp
  next
    fix i assume "i < length (requests (engine ?c'))"
    then have "i < length (requests ?s)" using fr by simp
    then have "read_reqs ?s ! req_buffer (requests ?s ! i) = Some i"
      using h(3) [of i] assms(2) by simp
    then show "read_reqs (engine ?c') ! req_buffer (requests (engine ?c') ! i) = Some i"
      using fr st by simp
  next
    show "\<exists>i<length (requests (engine ?c')).
        prefetch_seq (engine ?c') ! i + 1 = nextconsume (engine ?c')
        \<and> req_done (requests (engine ?c') ! i)
        \<and> buffer ?c' = Some (req_buffer (requests (engine ?c') ! i))"
      using jl j dn fr st by (intro exI [of _ j]) simp
  qed
  have "in_order cons 0 (returned ?c')"
    using io bl assms(2) n by (simp add: in_order_append)
  moreover have "length (filter is_block (returned ?c')) = nextconsume (engine ?c')"
    using bl assms(2) fr by simp
  ultimately have "disciplined cons sched k ?c'"
    using i' fr held' unfolding disciplined_def by simp
  then show ?thesis
    using step fr by (intro exI [of _ ?c']) simp
qed

lemma consumed_exhausted:
  assumes "disciplined cons sched k c"
    and "nextconsume (engine c) = length cons" and "nextread (engine c) = length cons"
    and "buffer c = Some b" and "b < k"
  shows "\<exists>c'. step BlockConsumed c = Inr c' \<and> disciplined cons sched k c'
      \<and> 0 < nextconsume (engine c')
      \<and> length (returned c') = Suc (length (returned c))"
proof -
  let ?s = "engine c"
  have i: "inv ?s" and su: "consume_seq ?s = cons" "prefetch_seq ?s = sched"
    "nreadblocks ?s = k" "seq_length ?s = length cons"
    and io: "in_order cons 0 (returned c)"
    and bl: "length (filter is_block (returned c)) = nextconsume ?s"
    using assms(1) unfolding disciplined_def by simp_all
  note sh = inv_shapeD [OF i [unfolded inv_def, THEN conjunct1]]
  have n: "0 < length cons" using sh(9,10) su by auto
  have b: "b < nreadblocks ?s" using assms(5) su by simp
  let ?s2 = "retire b ?s"
  have i2: "inv ?s2" by (rule inv_retire [OF i b])
  have k2: "same_setup ?s ?s2" by (rule retire_setup)
  then have su2: "consume_seq ?s2 = cons" "prefetch_seq ?s2 = sched"
    "nreadblocks ?s2 = k" "seq_length ?s2 = length cons"
    using su by (simp_all add: same_setup_def)
  note st = retire_static [of b ?s]
  have re: "reissue b ?s2 = Inr ?s2"
    using reissue_cases [OF i2] su2 assms(3,5) st by simp
  have de: "deliver b ?s2 = Inr (False, b, ?s2)"
    using su2 st assms(2) by (simp add: deliver_def)
  have bc: "block_consumed b ?s = Inr (False, b, ?s2)"
    using b re de by (simp add: block_consumed_parts)
  let ?c' = "c\<lparr>engine := ?s2, buffer := Some b, returned := returned c @ [NoMore]\<rparr>"
  have step: "step BlockConsumed c = Inr ?c'"
    using bc assms(4) by (simp add: consumed_step_def)
  have "inv_exhausted ?c'"
    unfolding inv_exhausted_def Let_def using su2 st assms(2,3,5) by simp
  moreover have "in_order cons 0 (returned ?c')"
    using io bl assms(2) by (simp add: in_order_append)
  moreover have "length (filter is_block (returned ?c')) = nextconsume (engine ?c')"
    using bl st by simp
  ultimately have "disciplined cons sched k ?c'"
    using i2 su2 unfolding disciplined_def by simp
  then show ?thesis
    using step st assms(2) n by (intro exI [of _ ?c']) simp
qed

lemma consumed_more:
  assumes "disciplined cons sched k c" and "inv_held c"
    and "0 < nextconsume (engine c)" and "nextconsume (engine c) < length cons"
    and "feasible k sched"
  shows "\<exists>c'. step BlockConsumed c = Inr c' \<and> disciplined cons sched k c'
      \<and> 0 < nextconsume (engine c')
      \<and> length (returned c') = Suc (length (returned c))"
proof -
  let ?s = "engine c"
  let ?n = "nextconsume ?s"
  let ?r = "nextread ?s"
  have i: "inv ?s" and su: "consume_seq ?s = cons" "prefetch_seq ?s = sched"
    "nreadblocks ?s = k" "seq_length ?s = length cons"
    and io: "in_order cons 0 (returned c)"
    and bl: "length (filter is_block (returned c)) = ?n"
    using assms(1) unfolding disciplined_def by simp_all
  note sh = inv_shapeD [OF i [unfolded inv_def, THEN conjunct1]]
  note h = inv_heldD [OF assms(2)]
  have ir: "inv_reqs ?s" using i by (simp add: inv_def)
  have ls: "length sched = length cons" using sh(2) su by simp
  have lr: "length (requests ?s) = ?r" using sh by simp
  \<comment> \<open>the buffer passed back\<close>
  obtain ih where ih: "ih < length (requests ?s)" "sched ! ih + 1 = ?n"
    "buffer c = Some (req_buffer (requests ?s ! ih))"
    using h(4) [OF assms(3)] su by auto
  let ?b = "req_buffer (requests ?s ! ih)"
  have b: "?b < nreadblocks ?s"
    using ir [unfolded inv_reqs_def, rule_format, OF ih(1)] by simp
  have ownh: "read_reqs ?s ! ?b = Some ih"
    using h(3) [OF ih(1)] ih(2) su by simp
  \<comment> \<open>after the wait for its request\<close>
  let ?s2 = "retire ?b ?s"
  have i2: "inv ?s2" by (rule inv_retire [OF i b])
  have k2: "same_setup ?s ?s2" by (rule retire_setup)
  then have su2: "consume_seq ?s2 = cons" "prefetch_seq ?s2 = sched"
    "nreadblocks ?s2 = k" "seq_length ?s2 = length cons" "do_after_fetch ?s2 = do_after_fetch ?s"
    using su by (simp_all add: same_setup_def)
  note st = retire_static [of ?b ?s]
  have b2: "?b < nreadblocks ?s2" using b su su2 by simp
  have lrr: "length (read_reqs ?s) = nreadblocks ?s" using sh by simp
  have none: "read_reqs ?s2 ! ?b = None"
    using b lrr by (simp add: retire_handles)
  have own2: "read_reqs ?s2 ! req_buffer (requests ?s2 ! j) = Some j"
    if j: "j < length (requests ?s)" "?n \<le> sched ! j" for j
  proof -
    have o: "read_reqs ?s ! req_buffer (requests ?s ! j) = Some j"
      using h(3) [OF j(1)] j(2) su by simp
    have "req_buffer (requests ?s ! j) \<noteq> ?b"
    proof
      assume e: "req_buffer (requests ?s ! j) = ?b"
      have "read_reqs ?s ! ?b = Some j" using o unfolding e .
      with ownh have "j = ih" by simp
      with j(2) have "?n \<le> sched ! ih" by (simp only:)
      then show False using ih(2) by arith
    qed
    then have "(read_reqs ?s)[?b := None] ! req_buffer (requests ?s ! j) = Some j"
      using o by (simp only: nth_list_update_neq not_sym)
    then show ?thesis
      by (simp only: retire_handles st)
  qed
  \<comment> \<open>after the next read has been issued\<close>
  have r2: "nextread ?s2 = ?r" and n2: "nextconsume ?s2 = ?n"
    and len2: "length (requests ?s2) = ?r"
    using st lr by simp_all
  have lrr2: "length (read_reqs ?s2) = nreadblocks ?s2"
    using i2 by (simp add: inv_def inv_shapeD)
  have rle: "?r \<le> length cons" using sh(12) su by simp
  have rmin: "?r = min (k + (?n - 1)) (length cons)" using h(1) su by simp
  obtain s7 where re: "reissue ?b ?s2 = Inr s7" and i7: "inv s7"
    and su7: "consume_seq s7 = cons" "prefetch_seq s7 = sched"
      "nreadblocks s7 = k" "seq_length s7 = length cons" "nextconsume s7 = ?n"
    and r7: "nextread s7 = min (k + ?n) (length cons)"
    and own7: "\<And>j. j < length (requests s7) \<Longrightarrow> ?n \<le> sched ! j \<Longrightarrow>
        read_reqs s7 ! req_buffer (requests s7 ! j) = Some j"
  proof (cases "?r < length cons")
    case False
    then have eq: "?r = length cons" using rle by simp
    have 1: "reissue ?b ?s2 = Inr ?s2"
      using reissue_none [of ?s2 ?b] su2 r2 eq by simp
    have "length cons \<le> k + (?n - 1)" using rmin eq by arith
    then have 2: "nextread ?s2 = min (k + ?n) (length cons)"
      using r2 eq by arith
    have 3: "read_reqs ?s2 ! req_buffer (requests ?s2 ! j) = Some j"
      if "j < length (requests ?s2)" "?n \<le> sched ! j" for j
      using own2 [of j] that len2 lr by simp
    show ?thesis
      by (rule that [OF 1 i2 su2(1-4) n2 2 3])
  next
    case True
    let ?t = "issued ?b ?s2"
    have lt2: "nextread ?s2 < seq_length ?s2" using True su2 r2 by simp
    have 1: "reissue ?b ?s2 = Inr ?t"
      by (rule reissue_more [OF i2 b2 lt2])
    have it: "inv ?t" by (rule inv_issued [OF i2 b2 lt2 none])
    have sut: "consume_seq ?t = cons" "prefetch_seq ?t = sched"
      "nreadblocks ?t = k" "seq_length ?t = length cons" "nextconsume ?t = ?n"
      using su2 n2 by simp_all
    have "?r = k + (?n - 1)" using rmin True by arith
    then have "?r + 1 = min (k + ?n) (length cons)"
      using True assms(3) by arith
    then have 2: "nextread ?t = min (k + ?n) (length cons)"
      using r2 by simp
    have 3: "read_reqs ?t ! req_buffer (requests ?t ! j) = Some j"
      if j: "j < length (requests ?t)" "?n \<le> sched ! j" for j
    proof (cases "j = ?r")
      case True
      have "requests ?t ! ?r = \<lparr>req_buffer = ?b,
          req_bid = consume_seq ?s2 ! (prefetch_seq ?s2 ! nextread ?s2),
          req_handler = \<lparr>switch_ix = prefetch_seq ?s2 ! nextread ?s2,
                         on_complete = do_after_fetch ?s2\<rparr>,
          req_done = False\<rparr>"
        using issued_new [of ?b ?s2] len2 by simp
      then have "req_buffer (requests ?t ! ?r) = ?b" by simp
      moreover have "read_reqs ?t ! ?b = Some ?r"
        using b2 lrr2 r2 by simp
      ultimately show ?thesis using True by simp
    next
      case False
      then have jl: "j < length (requests ?s)"
        using j(1) len2 lr by simp
      have o: "read_reqs ?s2 ! req_buffer (requests ?s2 ! j) = Some j"
        by (rule own2 [OF jl j(2)])
      then have ne: "req_buffer (requests ?s2 ! j) \<noteq> ?b" using none by auto
      have "requests ?t ! j = requests ?s2 ! j"
        using issued_old [of j ?s2 ?b] jl len2 lr by simp
      then show ?thesis
        using o ne by simp
    qed
    show ?thesis
      by (rule that [OF 1 it sut 2 3])
  qed
  have l7: "length (requests s7) = nextread s7"
    using i7 by (simp add: inv_def inv_shapeD)
  \<comment> \<open>the next position has been issued\<close>
  have "?n < length sched" using assms(4) ls by simp
  from feasibleD [OF assms(5) this]
  obtain jn where jn: "jn < k + ?n" "jn < length sched" "sched ! jn = ?n"
    by blast
  have jn7: "jn < nextread s7" using jn ls r7 by simp
  let ?s8 = "s7\<lparr>nextconsume := ?n + 1\<rparr>"
  let ?b' = "req_buffer (requests s7 ! jn)"
  have "\<exists>s'. wait ?n ?s8 = Inr (req_buffer (requests ?s8 ! jn), s')
      \<and> inv s' \<and> io_progress ?s8 s'
      \<and> req_done (requests s' ! jn)
      \<and> pref_buffer s' ! ?n = req_buffer (requests ?s8 ! jn)
      \<and> read_buffers s' ! req_buffer (requests ?s8 ! jn) = Some (consume_seq ?s8 ! ?n)"
  proof (rule hand_out)
    show "inv ?s8" using i7 by simp
    show "jn < nextread ?s8" using jn7 by simp
    show "prefetch_seq ?s8 ! jn = ?n" using jn su7 by simp
    show "read_reqs ?s8 ! req_buffer (requests ?s8 ! jn) = Some jn"
      using own7 [of jn] jn7 l7 jn(3) by simp
  qed
  then obtain s' where w: "wait ?n ?s8 = Inr (?b', s')"
    and i': "inv s'" and p: "io_progress ?s8 s'" and dn: "req_done (requests s' ! jn)"
    and pb: "pref_buffer s' ! ?n = ?b'" and data: "read_buffers s' ! ?b' = Some (cons ! ?n)"
    using su7 by auto
  have de: "deliver ?b s7 = Inr (True, ?b', s')"
    using w su7 assms(4) by (simp add: deliver_def)
  have bc: "block_consumed ?b ?s = Inr (True, ?b', s')"
    using b re de su by (simp add: block_consumed_parts)
  let ?c' = "c\<lparr>engine := s', buffer := Some ?b',
      returned := returned c @ [Block ?n ?b' ?b' (Some (cons ! ?n))]\<rparr>"
  have step: "step BlockConsumed c = Inr ?c'"
    using bc ih(3) pb data by (simp add: consumed_step_def)
  have fr: "nextread s' = nextread s7" "nextconsume s' = ?n + 1"
    "nreadblocks s' = k" "seq_length s' = length cons"
    "prefetch_seq s' = sched" "consume_seq s' = cons"
    "read_reqs s' = read_reqs s7"
    "length (requests s') = length (requests s7)"
    and st': "\<And>i. req_buffer (requests s' ! i) = req_buffer (requests s7 ! i)"
    using p su7 unfolding io_progress_def by simp_all
  have held': "inv_held ?c'"
  proof (rule inv_heldI)
    show "nextread (engine ?c')
        = min (nreadblocks (engine ?c') + (nextconsume (engine ?c') - 1)) (seq_length (engine ?c'))"
      using fr r7 by simp
    show "nextconsume (engine ?c') \<le> seq_length (engine ?c')"
      using fr assms(4) by simp
  next
    fix j assume "j < length (requests (engine ?c'))"
      "nextconsume (engine ?c') \<le> prefetch_seq (engine ?c') ! j + 1"
    then have "j < length (requests s7)" "?n \<le> sched ! j" using fr by simp_all
    then have "read_reqs s7 ! req_buffer (requests s7 ! j) = Some j"
      by (rule own7)
    then show "read_reqs (engine ?c') ! req_buffer (requests (engine ?c') ! j) = Some j"
      using fr st' by simp
  next
    show "\<exists>i<length (requests (engine ?c')).
        prefetch_seq (engine ?c') ! i + 1 = nextconsume (engine ?c')
        \<and> req_done (requests (engine ?c') ! i)
        \<and> buffer ?c' = Some (req_buffer (requests (engine ?c') ! i))"
      using jn7 l7 jn dn fr st' by (intro exI [of _ jn]) simp
  qed
  have "in_order cons 0 (returned ?c')"
    using io bl assms(4) by (simp add: in_order_append)
  moreover have "length (filter is_block (returned ?c')) = nextconsume (engine ?c')"
    using bl fr by simp
  ultimately have "disciplined cons sched k ?c'"
    using i' fr held' unfolding disciplined_def by simp
  then show ?thesis
    using step fr by (intro exI [of _ ?c']) simp
qed


section \<open>Properties of the prefetcher\<close>

lemma upt_2: "[0..<2] = [0, Suc 0]"
  by (simp add: upt_conv_Cons)

lemma valid_sched5: "valid_schedule (length cons5) sched5"
  by (simp add: valid_schedule_def cons5_def sched5_def)

text \<open>
  C2. Construction over \<open>n > 0\<close> positions with \<open>b > 0\<close> requested buffers and a valid
  schedule succeeds with \<open>k = min b n\<close> buffers, \<open>nextread = k\<close>, \<open>nextconsume = 0\<close> and
  all switches off. It has issued exactly \<open>k\<close> reads, in this order: the \<open>i\<close>-th reads
  the block at position \<open>sched ! i\<close> into buffer \<open>i\<close>, with a handler bound to the switch
  of that position and holding the caller's completion handler, and is the request of
  buffer \<open>i\<close>. The map sends \<open>sched ! i\<close> to \<open>i\<close> for all \<open>i < k\<close> and every other
  position to the unassigned value.
\<close>

theorem construction_issues_first_reads:
  assumes "0 < length cons" and "0 < b" and "valid_schedule (length cons) sched"
  shows "\<exists>s. new_block_prefetcher cons sched b cb = Inr s
      \<and> nreadblocks s = min b (length cons)
      \<and> nextread s = min b (length cons)
      \<and> nextconsume s = 0
      \<and> seq_length s = length cons
      \<and> completed s = replicate (length cons) False
      \<and> requests s =
          map (\<lambda>i. \<lparr>req_buffer = i, req_bid = cons ! (sched ! i),
                     req_handler = \<lparr>switch_ix = sched ! i, on_complete = cb\<rparr>,
                     req_done = False\<rparr>) [0..<min b (length cons)]
      \<and> io_log s = map IssueRead [0..<min b (length cons)]
      \<and> read_reqs s = map Some [0..<min b (length cons)]
      \<and> read_bids s = map (\<lambda>i. cons ! (sched ! i)) [0..<min b (length cons)]
      \<and> read_buffers s = replicate (min b (length cons)) None
      \<and> length (pref_buffer s) = length cons
      \<and> (\<forall>i < min b (length cons). pref_buffer s ! (sched ! i) = i)
      \<and> (\<forall>p < length cons. p \<notin> set (take (min b (length cons)) sched) \<longrightarrow>
            pref_buffer s ! p = unassigned)"
proof -
  let ?k = "min b (length cons)"
  let ?s = "ctor_state cons sched b cb ?k"
  note v = valid_scheduleD [OF assms(3)]
  have k: "?k \<le> length sched" using v by simp
  note pf = pref_fold [OF v(2,3) k, of unassigned]
  have "first_request cons sched cb = (\<lambda>i. \<lparr>req_buffer = i, req_bid = cons ! (sched ! i),
                     req_handler = \<lparr>switch_ix = sched ! i, on_complete = cb\<rparr>,
                     req_done = False\<rparr>)"
    by (rule ext) (simp add: first_request_def)
  then have "requests ?s =
          map (\<lambda>i. \<lparr>req_buffer = i, req_bid = cons ! (sched ! i),
                     req_handler = \<lparr>switch_ix = sched ! i, on_complete = cb\<rparr>,
                     req_done = False\<rparr>) [0..<?k]"
    by simp
  then show ?thesis
    using new_block_prefetcher_valid [OF assms, of cb] pf
    by (intro exI [of _ ?s]) simp
qed

theorem construction_issues_first_reads_witness:
  "0 < length cons5 \<and> 0 < (2::nat) \<and> valid_schedule (length cons5) sched5
   \<and> (\<exists>s. new_block_prefetcher cons5 sched5 2 True = Inr s
        \<and> nreadblocks s = 2 \<and> nextread s = 2 \<and> nextconsume s = 0
        \<and> io_log s = [IssueRead 0, IssueRead 1]
        \<and> read_reqs s = [Some 0, Some 1]
        \<and> read_bids s = [BID 12, BID 10]
        \<and> pref_buffer s ! 2 = 0 \<and> pref_buffer s ! 0 = 1
        \<and> pref_buffer s ! 1 = unassigned \<and> pref_buffer s ! 3 = unassigned)"
proof -
  have h: "0 < length cons5" "0 < (2::nat)" "valid_schedule (length cons5) sched5"
    using valid_sched5 by (simp_all add: cons5_def)
  have m: "min 2 (length cons5) = 2" by (simp add: cons5_def)
  obtain s where s: "new_block_prefetcher cons5 sched5 2 True = Inr s"
    "nreadblocks s = 2" "nextread s = 2" "nextconsume s = 0"
    "io_log s = map IssueRead [0..<2]" "read_reqs s = map Some [0..<2]"
    "read_bids s = map (\<lambda>i. cons5 ! (sched5 ! i)) [0..<2]"
    "\<forall>i < 2. pref_buffer s ! (sched5 ! i) = i"
    "\<forall>p < length cons5. p \<notin> set (take 2 sched5) \<longrightarrow> pref_buffer s ! p = unassigned"
    using construction_issues_first_reads [OF h, of True] unfolding m by blast
  have "pref_buffer s ! (sched5 ! 0) = 0" "pref_buffer s ! (sched5 ! 1) = 1"
    using s(8) by simp_all
  moreover have "pref_buffer s ! 1 = unassigned" "pref_buffer s ! 3 = unassigned"
    using s(9) by (simp_all add: cons5_def sched5_def)
  ultimately show ?thesis
    using h s(1-7) by (simp add: upt_2 cons5_def sched5_def)
qed

text \<open>
  C8. Construction with an empty consumption sequence or with no buffers fails, on the
  assertion about the length or on the one about the number of buffers: it yields no
  prefetcher, and no call can follow.
\<close>

theorem invalid_counts_rejected:
  "(length cons = 0 \<longrightarrow>
      new_block_prefetcher cons sched b cb = Inl (AssertionFailed ''seq_length > 0''))
   \<and> (0 < length cons \<and> b = 0 \<longrightarrow>
      new_block_prefetcher cons sched b cb = Inl (AssertionFailed ''_prefetch_buf_size > 0''))
   \<and> (length cons = 0 \<or> b = 0 \<longrightarrow>
      (\<exists>msg. new_block_prefetcher cons sched b cb = Inl (AssertionFailed msg)
         \<and> (\<forall>calls. run cons sched b cb calls = Inl (AssertionFailed msg))))"
proof -
  have 1: "new_block_prefetcher cons sched b cb = Inl (AssertionFailed ''seq_length > 0'')"
    if "length cons = 0"
    using that by (simp add: new_block_prefetcher_def)
  have 2: "new_block_prefetcher cons sched b cb
      = Inl (AssertionFailed ''_prefetch_buf_size > 0'')"
    if "0 < length cons" "b = 0"
    using that by (simp add: new_block_prefetcher_def Let_def)
  have 3: "\<exists>msg. new_block_prefetcher cons sched b cb = Inl (AssertionFailed msg)
         \<and> (\<forall>calls. run cons sched b cb calls = Inl (AssertionFailed msg))"
    if "length cons = 0 \<or> b = 0"
  proof (cases "length cons = 0")
    case True
    then show ?thesis using 1 by (simp add: run_def)
  next
    case False
    then show ?thesis using 2 that by (simp add: run_def)
  qed
  show ?thesis using 1 2 3 by blast
qed

theorem invalid_counts_rejected_witness:
  "length ([] :: bid list) = 0
   \<and> new_block_prefetcher [] [] 3 True = Inl (AssertionFailed ''seq_length > 0'')
   \<and> 0 < length cons5
   \<and> new_block_prefetcher cons5 sched5 0 True = Inl (AssertionFailed ''_prefetch_buf_size > 0'')
   \<and> run cons5 sched5 0 True [PullBlock] = Inl (AssertionFailed ''_prefetch_buf_size > 0'')"
  using invalid_counts_rejected [of "[]" "[]" 3 True]
    invalid_counts_rejected [of cons5 sched5 0 True]
  by (auto simp add: cons5_def)

text \<open>
  C4. In every run from a valid construction, whatever the caller's calls and whenever the
  I/O layer retires requests: at every moment of the log, from the first read the constructor
  issues on, at most \<open>k = min b n\<close> requests are in flight; there are \<open>k\<close> request
  handles, and every request in flight is the one the handle of some buffer points to. This
  goes on through the destructor, after which no request is in flight.
\<close>

theorem reads_in_flight_bounded:
  assumes "0 < length cons" and "0 < b" and "valid_schedule (length cons) sched"
    and "run cons sched b cb calls = Inr c"
  shows "(\<forall>n \<le> length (io_log (engine c)).
            length (in_flight (take n (io_log (engine c)))) \<le> min b (length cons))
      \<and> length (read_reqs (engine c)) = min b (length cons)
      \<and> (\<forall>rid \<in> set (in_flight (io_log (engine c))).
            \<exists>k < min b (length cons). read_reqs (engine c) ! k = Some rid)
      \<and> (\<forall>n \<le> length (io_log (delete_block_prefetcher (engine c))).
            length (in_flight (take n (io_log (delete_block_prefetcher (engine c)))))
              \<le> min b (length cons))
      \<and> in_flight (io_log (delete_block_prefetcher (engine c))) = []"
proof -
  let ?s = "engine c" and ?k = "min b (length cons)"
  note r = run_inv [OF assms]
  note d = delete_drains [OF r(1)]
  have k': "nreadblocks (delete_block_prefetcher ?s) = ?k"
    using d(2) r(2) by (simp add: io_progress_def)
  have 1: "\<forall>n \<le> length (io_log ?s). length (in_flight (take n (io_log ?s))) \<le> ?k"
    using inv_bounded [OF r(1)] r(2) by simp
  have 2: "length (read_reqs ?s) = ?k"
    using r(1,2) by (simp add: inv_def inv_shapeD)
  have 3: "\<forall>rid \<in> set (in_flight (io_log ?s)). \<exists>k < ?k. read_reqs ?s ! k = Some rid"
  proof
    fix rid assume "rid \<in> set (in_flight (io_log ?s))"
    moreover have il: "inv_log ?s" and io: "inv_own ?s" and ir: "inv_reqs ?s"
      using r(1) by (simp_all add: inv_def)
    ultimately have a: "rid < length (requests ?s)" "\<not> req_done (requests ?s ! rid)"
      using il [unfolded inv_log_def, THEN conjunct2, THEN conjunct1] by simp_all
    have "read_reqs ?s ! req_buffer (requests ?s ! rid) = Some rid"
      using io [unfolded inv_own_def, THEN conjunct1, rule_format, of rid] a by simp
    moreover have "req_buffer (requests ?s ! rid) < ?k"
      using ir [unfolded inv_reqs_def, rule_format, of rid] a r(2) by simp
    ultimately show "\<exists>k < ?k. read_reqs ?s ! k = Some rid" by blast
  qed
  have 4: "\<forall>n \<le> length (io_log (delete_block_prefetcher ?s)).
      length (in_flight (take n (io_log (delete_block_prefetcher ?s)))) \<le> ?k"
    using inv_bounded [OF d(1)] k' by simp
  show ?thesis using 1 2 3 4 d(3) by blast
qed

lemmas eval_defs = run_def new_block_prefetcher_def ctor_loop.simps ctor_body_def block_read_def
  pull_step_def consumed_step_def pull_block_def wait_def wait_for_on_def io_complete_def
  handler_call_def request_wait_def block_consumed_def Let_def cons5_def sched5_def

lemma run5_returns:
  "\<exists>c. run cons5 sched5 2 True [PullBlock, BlockConsumed, IOComplete 0] = Inr c"
  by (simp add: eval_defs)

theorem reads_in_flight_bounded_witness:
  "0 < length cons5 \<and> 0 < (2::nat) \<and> valid_schedule (length cons5) sched5
   \<and> (\<exists>c. run cons5 sched5 2 True [PullBlock, BlockConsumed, IOComplete 0] = Inr c
        \<and> (\<forall>n \<le> length (io_log (engine c)).
              length (in_flight (take n (io_log (engine c)))) \<le> 2)
        \<and> length (read_reqs (engine c)) = 2
        \<and> in_flight (io_log (delete_block_prefetcher (engine c))) = [])"
proof -
  have h: "0 < length cons5" "0 < (2::nat)" "valid_schedule (length cons5) sched5"
    using valid_sched5 by (simp_all add: cons5_def)
  have m: "min 2 (length cons5) = 2" by (simp add: cons5_def)
  obtain c where c: "run cons5 sched5 2 True [PullBlock, BlockConsumed, IOComplete 0] = Inr c"
    using run5_returns by blast
  show ?thesis
    using h c reads_in_flight_bounded [OF h c] unfolding m by blast
qed

text \<open>
  C6. The completion adapter calls the user's handler, when there is one, and only then
  turns its switch on. So in every run from a valid construction with a user's handler, the
  handler runs at most once for each position, and whenever the caller is woken from the
  wait for a position, the handler has run for this position exactly once, before.
\<close>

theorem callback_before_signal:
  "handler_call h s =
     s\<lparr>completed := (completed s)[switch_ix h := True],
       io_log := io_log s @ (if on_complete h then [UserCallback (switch_ix h)] else [])
                   @ [SwitchOn (switch_ix h)]\<rparr>
   \<and> (0 < length cons \<and> 0 < b \<and> valid_schedule (length cons) sched
        \<and> run cons sched b True calls = Inr c \<longrightarrow>
      (\<forall>p. count_list (io_log (engine c)) (UserCallback p) \<le> 1)
      \<and> (\<forall>n < length (io_log (engine c)). \<forall>p. io_log (engine c) ! n = Woken p \<longrightarrow>
            count_list (io_log (engine c)) (UserCallback p) = 1
            \<and> UserCallback p \<in> set (take n (io_log (engine c)))))"
proof (intro conjI impI)
  show "handler_call h s =
     s\<lparr>completed := (completed s)[switch_ix h := True],
       io_log := io_log s @ (if on_complete h then [UserCallback (switch_ix h)] else [])
                   @ [SwitchOn (switch_ix h)]\<rparr>"
    by (rule handler_call_eq)
next
  assume a: "0 < length cons \<and> 0 < b \<and> valid_schedule (length cons) sched
        \<and> run cons sched b True calls = Inr c"
  let ?l = "io_log (engine c)"
  have i: "inv (engine c)" and cb: "do_after_fetch (engine c)"
    using run_inv(1,6) [of cons b sched True calls c] a by simp_all
  then have il: "inv_log (engine c)" by (simp add: inv_def)
  have once: "\<forall>p. count_list ?l (UserCallback p) \<le> 1"
    and cf: "callbacks_first ?l"
    using il cb unfolding inv_log_def by simp_all
  show "\<forall>p. count_list ?l (UserCallback p) \<le> 1" by (rule once)
  show "\<forall>n < length ?l. \<forall>p. ?l ! n = Woken p \<longrightarrow>
      count_list ?l (UserCallback p) = 1 \<and> UserCallback p \<in> set (take n ?l)"
  proof (intro allI impI)
    fix n p assume n: "n < length ?l" "?l ! n = Woken p"
    then have m: "UserCallback p \<in> set (take n ?l)"
      using cf unfolding callbacks_first_def by blast
    then have "UserCallback p \<in> set ?l" by (rule in_set_takeD)
    then have "count_list ?l (UserCallback p) \<noteq> 0"
      by (simp add: count_list_0_iff)
    then have "count_list ?l (UserCallback p) = 1"
      using once [rule_format, of p] by simp
    then show "count_list ?l (UserCallback p) = 1 \<and> UserCallback p \<in> set (take n ?l)"
      using m by simp
  qed
qed

lemma run5_log:
  "\<exists>c. run cons5 sched5 2 True [PullBlock] = Inr c
     \<and> io_log (engine c) =
        [IssueRead 0, IssueRead 1, WaitSignal 0, ReadDone 1, UserCallback 0, SwitchOn 0,
         Woken 0]"
  by (simp add: eval_defs)

theorem callback_before_signal_witness:
  "0 < length cons5 \<and> 0 < (2::nat) \<and> valid_schedule (length cons5) sched5
   \<and> (\<exists>c. run cons5 sched5 2 True [PullBlock] = Inr c
        \<and> io_log (engine c) ! 6 = Woken 0
        \<and> count_list (io_log (engine c)) (UserCallback 0) = 1
        \<and> UserCallback 0 \<in> set (take 6 (io_log (engine c))))"
proof -
  have h: "0 < length cons5" "0 < (2::nat)" "valid_schedule (length cons5) sched5"
    using valid_sched5 by (simp_all add: cons5_def)
  obtain c where c: "run cons5 sched5 2 True [PullBlock] = Inr c"
    and l: "io_log (engine c) =
        [IssueRead 0, IssueRead 1, WaitSignal 0, ReadDone 1, UserCallback 0, SwitchOn 0,
         Woken 0]"
    using run5_log by blast
  have w: "6 < length (io_log (engine c))" "io_log (engine c) ! 6 = Woken 0"
    by (simp_all add: l)
  have "count_list (io_log (engine c)) (UserCallback 0) = 1
      \<and> UserCallback 0 \<in> set (take 6 (io_log (engine c)))"
    using callback_before_signal [where cons = cons5 and b = 2 and sched = sched5
        and calls = "[PullBlock]" and c = c, THEN conjunct2] h c w
    by blast
  then show ?thesis using h c w by blast
qed

text \<open>
  C3. In every state \<open>s\<close> of a run from a valid construction, and for every buffer
  \<open>ibuffer\<close> of the pool, \<open>block_consumed\<close> first comes, without fail, to a state \<open>s7\<close>
  and then hands out the next block from there (lines 199 to 204). Up to \<open>s7\<close> the log
  grows by \<open>evs1\<close> and then by the newly issued read, if any: \<open>evs1\<close> is empty if the
  buffer's handle was null, and begins with the wait for the buffer's request otherwise,
  whether or not anything is left to read; after \<open>evs1\<close> no request into this buffer is in
  flight, and only then the read of position \<open>prefetch_seq ! nextread\<close> into this buffer
  is issued, if \<open>nextread < seq_length\<close>. In that case the new request is the buffer's
  handle, the map sends the position to the buffer, and \<open>nextread\<close> has advanced by one;
  otherwise the handle is null. Handing out the next block issues no read and leaves
  \<open>nextread\<close>, the handles and the map as they are.
\<close>

theorem wait_before_reuse:
  assumes "0 < length cons" and "0 < b" and "valid_schedule (length cons) sched"
    and "run cons sched b cb calls = Inr c"
    and "ibuffer < nreadblocks (engine c)"
  shows "\<exists>s7 evs1.
      reissue ibuffer (retire ibuffer (engine c)) = Inr s7
      \<and> block_consumed ibuffer (engine c) = deliver ibuffer s7
      \<and> io_log s7 = io_log (engine c) @ evs1 @
            (if nextread (engine c) < seq_length (engine c)
             then [IssueRead (nextread (engine c))] else [])
      \<and> (case read_reqs (engine c) ! ibuffer of
            None \<Rightarrow> evs1 = []
          | Some rid \<Rightarrow> \<exists>tl. evs1 = ReqWait rid # tl)
      \<and> (\<forall>r. IssueRead r \<notin> set evs1)
      \<and> (\<forall>i \<in> set (in_flight (io_log (engine c) @ evs1)).
            req_buffer (requests (engine c) ! i) \<noteq> ibuffer)
      \<and> (nextread (engine c) < seq_length (engine c) \<longrightarrow>
            nextread s7 = nextread (engine c) + 1
            \<and> read_reqs s7 ! ibuffer = Some (nextread (engine c))
            \<and> pref_buffer s7 ! (sched ! nextread (engine c)) = ibuffer
            \<and> requests s7 ! nextread (engine c) =
                 \<lparr>req_buffer = ibuffer, req_bid = cons ! (sched ! nextread (engine c)),
                  req_handler = \<lparr>switch_ix = sched ! nextread (engine c), on_complete = cb\<rparr>,
                  req_done = False\<rparr>)
      \<and> (\<not> nextread (engine c) < seq_length (engine c) \<longrightarrow>
            nextread s7 = nextread (engine c) \<and> read_reqs s7 ! ibuffer = None)
      \<and> (\<forall>f buf' s'. deliver ibuffer s7 = Inr (f, buf', s') \<longrightarrow>
            (\<exists>evs2. io_log s' = io_log s7 @ evs2 \<and> (\<forall>r. IssueRead r \<notin> set evs2))
            \<and> nextread s' = nextread s7 \<and> read_reqs s' = read_reqs s7
            \<and> pref_buffer s' = pref_buffer s7)"
proof -
  let ?s = "engine c"
  let ?s2 = "retire ibuffer ?s"
  let ?r = "nextread ?s"
  let ?s7 = "if ?r < seq_length ?s then issued ibuffer ?s2 else ?s2"
  note r = run_inv [OF assms(1-4)]
  note sh = inv_shapeD [OF r(1) [unfolded inv_def, THEN conjunct1]]
  have i2: "inv ?s2" by (rule inv_retire [OF r(1) assms(5)])
  have k2: "same_setup ?s ?s2" by (rule retire_setup)
  then have b2: "ibuffer < nreadblocks ?s2" and n2: "seq_length ?s2 = seq_length ?s"
    and set2: "prefetch_seq ?s2 = sched" "consume_seq ?s2 = cons" "do_after_fetch ?s2 = cb"
    using assms(5) r by (simp_all add: same_setup_def)
  note st = retire_static [of ibuffer ?s]
  have none: "read_reqs ?s2 ! ibuffer = None"
    using assms(5) sh by (simp add: retire_handles)
  have re: "reissue ibuffer ?s2 = Inr ?s7"
    using reissue_cases [OF i2 b2] by (simp add: st n2)
  have bc: "block_consumed ibuffer ?s = deliver ibuffer ?s7"
    using assms(5) re by (simp add: block_consumed_parts)
  obtain evs1 where e1: "io_log ?s2 = io_log ?s @ evs1"
    "case read_reqs ?s ! ibuffer of None \<Rightarrow> evs1 = [] | Some rid \<Rightarrow> \<exists>tl. evs1 = ReqWait rid # tl"
    "\<forall>r. IssueRead r \<notin> set evs1"
    using retire_log [of ibuffer ?s] by blast
  have log7: "io_log ?s7 = io_log ?s @ evs1 @ (if ?r < seq_length ?s then [IssueRead ?r] else [])"
    using e1(1) by (simp add: st)
  have fl: "\<forall>i \<in> set (in_flight (io_log ?s @ evs1)). req_buffer (requests ?s ! i) \<noteq> ibuffer"
  proof
    fix i assume "i \<in> set (in_flight (io_log ?s @ evs1))"
    then have "i \<in> set (in_flight (io_log ?s2))" by (simp add: e1(1))
    moreover have "inv_log ?s2" using i2 by (simp add: inv_def)
    ultimately have a: "i < length (requests ?s2)" "\<not> req_done (requests ?s2 ! i)"
      unfolding inv_log_def by simp_all
    then have "req_buffer (requests ?s2 ! i) \<noteq> ibuffer"
      using retire_slot_done [OF r(1) assms(5), of i] by blast
    then show "req_buffer (requests ?s ! i) \<noteq> ibuffer" by (simp add: st)
  qed
  have len2: "length (requests ?s2) = ?r" using sh st by simp
  have more: "?r < seq_length ?s \<longrightarrow>
      nextread ?s7 = ?r + 1 \<and> read_reqs ?s7 ! ibuffer = Some ?r
      \<and> pref_buffer ?s7 ! (sched ! ?r) = ibuffer
      \<and> requests ?s7 ! ?r =
           \<lparr>req_buffer = ibuffer, req_bid = cons ! (sched ! ?r),
            req_handler = \<lparr>switch_ix = sched ! ?r, on_complete = cb\<rparr>, req_done = False\<rparr>"
  proof
    assume lt: "?r < seq_length ?s"
    have "sched ! ?r < seq_length ?s" using sh(4) [OF lt] r(4) by simp
    moreover have "length (read_reqs ?s2) = nreadblocks ?s2"
      "length (pref_buffer ?s2) = seq_length ?s2"
      using i2 by (simp_all add: inv_def inv_shapeD)
    ultimately show "nextread ?s7 = ?r + 1 \<and> read_reqs ?s7 ! ibuffer = Some ?r
      \<and> pref_buffer ?s7 ! (sched ! ?r) = ibuffer
      \<and> requests ?s7 ! ?r =
           \<lparr>req_buffer = ibuffer, req_bid = cons ! (sched ! ?r),
            req_handler = \<lparr>switch_ix = sched ! ?r, on_complete = cb\<rparr>, req_done = False\<rparr>"
      using lt b2 n2 set2 issued_new [of ibuffer ?s2] len2 by (simp add: st)
  qed
  have nomore: "\<not> ?r < seq_length ?s \<longrightarrow> nextread ?s7 = ?r \<and> read_reqs ?s7 ! ibuffer = None"
    using none by (simp add: st)
  have del: "\<forall>f buf' s'. deliver ibuffer ?s7 = Inr (f, buf', s') \<longrightarrow>
      (\<exists>evs2. io_log s' = io_log ?s7 @ evs2 \<and> (\<forall>r. IssueRead r \<notin> set evs2))
      \<and> nextread s' = nextread ?s7 \<and> read_reqs s' = read_reqs ?s7
      \<and> pref_buffer s' = pref_buffer ?s7"
  proof (intro allI impI)
    fix f buf' s' assume d: "deliver ibuffer ?s7 = Inr (f, buf', s')"
    show "(\<exists>evs2. io_log s' = io_log ?s7 @ evs2 \<and> (\<forall>r. IssueRead r \<notin> set evs2))
      \<and> nextread s' = nextread ?s7 \<and> read_reqs s' = read_reqs ?s7
      \<and> pref_buffer s' = pref_buffer ?s7"
      using deliver_frame(1) [OF d] deliver_frame(2) [OF d] deliver_frame(3) [OF d]
        deliver_frame(4) [OF d] by (intro conjI)
  qed
  show ?thesis
    apply (rule exI [of _ ?s7])
    apply (rule exI [of _ evs1])
    apply (insert re bc log7 e1(2,3) fl more nomore del)
    apply (intro conjI; assumption)
    done
qed


theorem wait_before_reuse_witness:
  "0 < length cons5 \<and> 0 < (2::nat) \<and> valid_schedule (length cons5) sched5
   \<and> (\<exists>c. run cons5 sched5 2 True [PullBlock] = Inr c \<and> 1 < nreadblocks (engine c)
        \<and> (\<exists>s7 evs1. reissue 1 (retire 1 (engine c)) = Inr s7
              \<and> block_consumed 1 (engine c) = deliver 1 s7
              \<and> io_log s7 = io_log (engine c) @ evs1 @
                   (if nextread (engine c) < seq_length (engine c)
                    then [IssueRead (nextread (engine c))] else [])
              \<and> (\<forall>r. IssueRead r \<notin> set evs1)
              \<and> (\<forall>i \<in> set (in_flight (io_log (engine c) @ evs1)).
                    req_buffer (requests (engine c) ! i) \<noteq> 1)))"
proof -
  have h: "0 < length cons5" "0 < (2::nat)" "valid_schedule (length cons5) sched5"
    using valid_sched5 by (simp_all add: cons5_def)
  obtain c where c: "run cons5 sched5 2 True [PullBlock] = Inr c"
    using run5_log by blast
  have k: "1 < nreadblocks (engine c)"
    using run_inv(2) [OF h c] by (simp add: cons5_def)
  show ?thesis
    using h c k wait_before_reuse [OF h c k] by blast
qed

end
